theory Spec2Isabelle
  imports Complex_Main
begin

section \<open>Board state engine (src/game/togyzkumalak.py)\<close>

text \<open>
  The two sides are the module constants \<^verbatim>\<open>WHITE = 0\<close> and \<^verbatim>\<open>BLACK = 1\<close>; every
  two-element list of the source that is indexed by a side (\<^verbatim>\<open>pits\<close>, \<^verbatim>\<open>kazans\<close>,
  \<^verbatim>\<open>tuzdyk_indices\<close>) is a pair here, read with \<open>entry\<close> and written with \<open>put\<close>.
  Counts, pit indices and the move number are Python integers, hence \<open>int\<close>.
\<close>

datatype player = WHITE | BLACK

datatype error = ValueError | IndexError | AssertionError | ZeroDivisionError | KeyError

definition opponent_of :: "player \<Rightarrow> player" where
  "opponent_of p = (if p = WHITE then BLACK else WHITE)"

record TogyzKumalakState =
  pits :: "int list \<times> int list"
  kazans :: "int \<times> int"
  tuzdyk_indices :: "int option \<times> int option"
  player_to_move :: player
  move_number :: int

fun entry :: "'a \<times> 'a \<Rightarrow> player \<Rightarrow> 'a" where
  "entry (w, b) WHITE = w"
| "entry (w, b) BLACK = b"

fun put :: "'a \<times> 'a \<Rightarrow> player \<Rightarrow> 'a \<Rightarrow> 'a \<times> 'a" where
  "put (w, b) WHITE v = (v, b)"
| "put (w, b) BLACK v = (w, v)"

text \<open>
  Python list subscripts: a negative index counts from the end, and an index outside
  \<open>-len .. len - 1\<close> raises IndexError (\<open>None\<close> here).
\<close>

definition py_index :: "'a list \<Rightarrow> int \<Rightarrow> nat option" where
  "py_index xs i =
     (if 0 \<le> i \<and> i < int (length xs) then Some (nat i)
      else if - int (length xs) \<le> i \<and> i < 0 then Some (nat (int (length xs) + i))
      else None)"

definition py_get :: "'a list \<Rightarrow> int \<Rightarrow> 'a option" where
  "py_get xs i = map_option (\<lambda>j. xs ! j) (py_index xs i)"

definition py_set :: "'a list \<Rightarrow> int \<Rightarrow> 'a \<Rightarrow> 'a list option" where
  "py_set xs i v = map_option (\<lambda>j. xs[j := v]) (py_index xs i)"

text \<open>\<^verbatim>\<open>pits[side][idx]\<close> read, \<^verbatim>\<open>pits[side][idx] = v\<close> and \<^verbatim>\<open>pits[side][idx] += 1\<close>.\<close>

definition get_pit :: "int list \<times> int list \<Rightarrow> player \<Rightarrow> int \<Rightarrow> int option" where
  "get_pit ps side idx = py_get (entry ps side) idx"

definition set_pit :: "int list \<times> int list \<Rightarrow> player \<Rightarrow> int \<Rightarrow> int \<Rightarrow> (int list \<times> int list) option" where
  "set_pit ps side idx v = map_option (put ps side) (py_set (entry ps side) idx v)"

definition incr_pit :: "int list \<times> int list \<Rightarrow> player \<Rightarrow> int \<Rightarrow> (int list \<times> int list) option" where
  "incr_pit ps side idx =
     (case get_pit ps side idx of None \<Rightarrow> None | Some c \<Rightarrow> set_pit ps side idx (c + 1))"

definition initial :: TogyzKumalakState where
  "initial = \<lparr>pits = (replicate 9 9, replicate 9 9), kazans = (0, 0),
     tuzdyk_indices = (None, None), player_to_move = WHITE, move_number = 1\<rparr>"

definition legal_moves :: "TogyzKumalakState \<Rightarrow> int list" where
  "legal_moves s =
     [int i. (i, stones) \<leftarrow> enumerate 0 (entry (pits s) (player_to_move s)), stones > 0]"

definition has_legal_move :: "TogyzKumalakState \<Rightarrow> bool" where
  "has_legal_move s = list_ex (\<lambda>stones. stones > 0) (entry (pits s) (player_to_move s))"

definition is_terminal :: "TogyzKumalakState \<Rightarrow> bool" where
  "is_terminal s =
     (if entry (kazans s) WHITE \<ge> 82 \<or> entry (kazans s) BLACK \<ge> 82 then True
      else if \<not> has_legal_move s then True
      else False)"

definition final_scores :: "TogyzKumalakState \<Rightarrow> int \<times> int" where
  "final_scores s =
     (let white_kazan = fst (kazans s); black_kazan = snd (kazans s) in
      if entry (kazans s) WHITE \<ge> 82 \<or> entry (kazans s) BLACK \<ge> 82 then (white_kazan, black_kazan)
      else if \<not> has_legal_move s then
        (let mover = player_to_move s;
             opp = opponent_of mover;
             remaining_opp = sum_list (entry (pits s) opp);
             remaining_mover = sum_list (entry (pits s) mover)
         in if opp = WHITE then (white_kazan + remaining_opp, black_kazan + remaining_mover)
            else (white_kazan + remaining_mover, black_kazan + remaining_opp))
      else (white_kazan, black_kazan))"

definition outcome :: "TogyzKumalakState \<Rightarrow> player option" where
  "outcome s =
     (if \<not> is_terminal s then None
      else (let white_score = fst (final_scores s); black_score = snd (final_scores s) in
        if white_score > black_score then Some WHITE
        else if black_score > white_score then Some BLACK
        else None))"

subsection \<open>Move application\<close>

definition tuzdyk_owner_at :: "int option \<times> int option \<Rightarrow> player \<Rightarrow> int \<Rightarrow> player option" where
  "tuzdyk_owner_at tuz side_idx local_index =
     (if entry tuz WHITE \<noteq> None \<and> side_idx = BLACK \<and> entry tuz WHITE = Some local_index then Some WHITE
      else if entry tuz BLACK \<noteq> None \<and> side_idx = WHITE \<and> entry tuz BLACK = Some local_index then Some BLACK
      else None)"

definition next_pos :: "player \<times> int \<Rightarrow> player \<times> int" where
  "next_pos p = (if snd p = 8 then (opponent_of (fst p), 0) else (fst p, snd p + 1))"

definition can_create_tuzdyk :: "TogyzKumalakState \<Rightarrow> player \<Rightarrow> int \<Rightarrow> bool" where
  "can_create_tuzdyk s mover opp_pit_index =
     (let opp = opponent_of mover in
      if entry (tuzdyk_indices s) mover \<noteq> None then False
      else if opp_pit_index = 8 then False
      else if entry (tuzdyk_indices s) opp \<noteq> None \<and> entry (tuzdyk_indices s) opp = Some opp_pit_index
        then False
      else True)"

text \<open>
  The sowing loop \<^verbatim>\<open>while stones_to_sow > 0\<close>. Its state is the number of stones left,
  the current cell, the last affected cell, the pits and the kazans; the tuzdyk indices
  do not change while it runs. A subscript out of range ends it with IndexError.
\<close>

function sow ::
  "int option \<times> int option \<Rightarrow> int \<Rightarrow> player \<times> int \<Rightarrow> player \<times> int \<Rightarrow>
   int list \<times> int list \<Rightarrow> int \<times> int \<Rightarrow>
   error + ((int list \<times> int list) \<times> (int \<times> int) \<times> (player \<times> int))" where
  "sow tuz stones_to_sow cur last_cell ps kz =
     (if stones_to_sow > 0 then
        (case tuzdyk_owner_at tuz (fst cur) (snd cur) of
           Some owner \<Rightarrow>
             sow tuz (stones_to_sow - 1)
               (if stones_to_sow - 1 > 0 then next_pos cur else cur)
               last_cell ps (put kz owner (entry kz owner + 1))
         | None \<Rightarrow>
             (case incr_pit ps (fst cur) (snd cur) of
                None \<Rightarrow> Inl IndexError
              | Some ps' \<Rightarrow>
                  sow tuz (stones_to_sow - 1)
                    (if stones_to_sow - 1 > 0 then next_pos cur else cur)
                    cur ps' kz))
      else Inr (ps, kz, last_cell))"
  by pat_completeness auto
termination
  by (relation "measure (\<lambda>(tuz, n, cur, last_cell, ps, kz). nat n)") auto

declare sow.simps [simp del]

text \<open>The capture or tuzdyk creation that follows the sowing, on the last affected cell.\<close>

definition capture ::
  "TogyzKumalakState \<Rightarrow> player \<Rightarrow> int option \<times> int option \<Rightarrow>
   (int list \<times> int list) \<times> (int \<times> int) \<times> (player \<times> int) \<Rightarrow>
   error + ((int list \<times> int list) \<times> (int \<times> int) \<times> (int option \<times> int option))" where
  "capture s mover tuz r =
     (case r of (ps, kz, last_cell) \<Rightarrow>
      let opp = opponent_of mover; last_side = fst last_cell; last_idx = snd last_cell in
      if last_side = opp then
        (if tuzdyk_owner_at tuz last_side last_idx = None then
           (case get_pit ps opp last_idx of
              None \<Rightarrow> Inl IndexError
            | Some stones_there \<Rightarrow>
                if stones_there = 3 \<and> can_create_tuzdyk s mover last_idx then
                  (case set_pit ps opp last_idx 0 of
                     None \<Rightarrow> Inl IndexError
                   | Some ps' \<Rightarrow> Inr (ps', put kz mover (entry kz mover + 3), put tuz mover (Some last_idx)))
                else if stones_there mod 2 = 0 \<and> stones_there > 0 then
                  (case set_pit ps opp last_idx 0 of
                     None \<Rightarrow> Inl IndexError
                   | Some ps' \<Rightarrow> Inr (ps', put kz mover (entry kz mover + stones_there), tuz))
                else Inr (ps, kz, tuz))
         else Inr (ps, kz, tuz))
      else Inr (ps, kz, tuz))"

text \<open>
  \<^verbatim>\<open>apply_move\<close> in three steps, in the order of the source: the legality check and the
  handling of the origin pit (\<open>pick_up\<close>), the sowing loop started at the cell after the
  origin (\<open>sowing\<close>), and the capture followed by the construction of the new state.
\<close>

definition pick_up ::
  "TogyzKumalakState \<Rightarrow> int \<Rightarrow> error + ((int list \<times> int list) \<times> int \<times> (player \<times> int))" where
  "pick_up s pit_index =
     (let mover = player_to_move s in
      case get_pit (pits s) mover pit_index of
        None \<Rightarrow> Inl IndexError
      | Some stones_in_hand \<Rightarrow>
          if stones_in_hand \<le> 0 then Inl ValueError
          else
            (case set_pit (pits s) mover pit_index 0 of
               None \<Rightarrow> Inl IndexError
             | Some ps0 \<Rightarrow>
                 if stones_in_hand > 1 then
                   (case incr_pit ps0 mover pit_index of
                      None \<Rightarrow> Inl IndexError
                    | Some ps1 \<Rightarrow> Inr (ps1, stones_in_hand - 1, next_pos (mover, pit_index)))
                 else Inr (ps0, stones_in_hand, next_pos (mover, pit_index))))"

definition sowing ::
  "TogyzKumalakState \<Rightarrow> int \<Rightarrow>
   error + ((int list \<times> int list) \<times> (int \<times> int) \<times> (player \<times> int))" where
  "sowing s pit_index =
     (case pick_up s pit_index of
        Inl e \<Rightarrow> Inl e
      | Inr (ps1, stones_to_sow, cur) \<Rightarrow>
          sow (tuzdyk_indices s) stones_to_sow cur cur ps1 (kazans s))"

definition apply_move :: "TogyzKumalakState \<Rightarrow> int \<Rightarrow> error + TogyzKumalakState" where
  "apply_move s pit_index =
     (let mover = player_to_move s;
          opp = opponent_of mover
      in case sowing s pit_index of
           Inl e \<Rightarrow> Inl e
         | Inr r \<Rightarrow>
             (case capture s mover (tuzdyk_indices s) r of
                Inl e \<Rightarrow> Inl e
              | Inr (ps', kz', tuz') \<Rightarrow>
                  Inr \<lparr>pits = ps', kazans = kz', tuzdyk_indices = tuz',
                       player_to_move = opp,
                       move_number = move_number s + 1\<rparr>))"

subsection \<open>Notions used to state the properties of the rules engine\<close>

text \<open>The stones on the board, and \<^verbatim>\<open>sum(pits) + sum(kazans)\<close>.\<close>

definition board_sum :: "int list \<times> int list \<Rightarrow> int" where
  "board_sum ps = sum_list (fst ps) + sum_list (snd ps)"

definition total_seeds :: "TogyzKumalakState \<Rightarrow> int" where
  "total_seeds s = board_sum (pits s) + (fst (kazans s) + snd (kazans s))"

text \<open>
  A board has two rows of nine pits. \<open>in_row\<close> are the pit indices 0..8; \<open>on_board\<close>
  are the subscripts Python accepts on a row of nine, the negative ones included.
\<close>

definition rows9 :: "int list \<times> int list \<Rightarrow> bool" where
  "rows9 ps = (length (fst ps) = 9 \<and> length (snd ps) = 9)"

definition on_board :: "int \<Rightarrow> bool" where
  "on_board i = (-9 \<le> i \<and> i \<le> 8)"

definition in_row :: "int \<Rightarrow> bool" where
  "in_row i = (0 \<le> i \<and> i \<le> 8)"

definition stones_at :: "int list \<times> int list \<Rightarrow> player \<times> int \<Rightarrow> int" where
  "stones_at ps q = entry ps (fst q) ! nat (snd q)"

text \<open>
  The cells a move sows into, in order: as many cells as stones are sown (all but one of
  the stones picked up, or the single stone), walking the ring from the cell after the
  origin. The last affected cell is the last of them that is not a tuzdyk, if there is one:
  a stone dropped on a tuzdyk goes to a kazan and increments no pit.
\<close>

fun ring_cells :: "nat \<Rightarrow> player \<times> int \<Rightarrow> (player \<times> int) list" where
  "ring_cells 0 c = []"
| "ring_cells (Suc k) c = c # ring_cells k (next_pos c)"

definition sown_cells :: "TogyzKumalakState \<Rightarrow> int \<Rightarrow> (player \<times> int) list" where
  "sown_cells s a =
     (let mover = player_to_move s; n = entry (pits s) mover ! nat a
      in ring_cells (nat (if n > 1 then n - 1 else n)) (next_pos (mover, a)))"

definition last_affected ::
  "int option \<times> int option \<Rightarrow> (player \<times> int) list \<Rightarrow> (player \<times> int) option" where
  "last_affected tuz cells =
     (case filter (\<lambda>c. tuzdyk_owner_at tuz (fst c) (snd c) = None) cells of
        [] \<Rightarrow> None
      | c # cs \<Rightarrow> Some (last (c # cs)))"

text \<open>
  The state a move must produce when its last affected cell is the opponent's pit \<open>i\<close>,
  from the pits \<open>ps\<close> and kazans \<open>kz\<close> as the sowing left them: a tuzdyk when the cell
  holds exactly 3 and the three restrictions allow it, else a capture of an even count,
  else nothing.
\<close>

definition after_capture ::
  "TogyzKumalakState \<Rightarrow> int list \<times> int list \<Rightarrow> int \<times> int \<Rightarrow> int \<Rightarrow> TogyzKumalakState" where
  "after_capture s ps kz i =
     (let mover = player_to_move s; opp = opponent_of mover; tuz = tuzdyk_indices s;
          cnt = stones_at ps (opp, i);
          emptied = put ps opp ((entry ps opp)[nat i := 0])
      in if cnt = 3 \<and> entry tuz mover = None \<and> i \<noteq> 8 \<and> entry tuz opp \<noteq> Some i then
           \<lparr>pits = emptied, kazans = put kz mover (entry kz mover + 3),
            tuzdyk_indices = put tuz mover (Some i),
            player_to_move = opp, move_number = move_number s + 1\<rparr>
         else if cnt mod 2 = 0 \<and> cnt > 0 then
           \<lparr>pits = emptied, kazans = put kz mover (entry kz mover + cnt),
            tuzdyk_indices = tuz,
            player_to_move = opp, move_number = move_number s + 1\<rparr>
         else
           \<lparr>pits = ps, kazans = kz, tuzdyk_indices = tuz,
            player_to_move = opp, move_number = move_number s + 1\<rparr>)"

text \<open>Positions used as concrete inputs.\<close>

definition tuz_example :: TogyzKumalakState where
  "tuz_example = \<lparr>pits = ([0, 0, 0, 0, 0, 0, 0, 0, 1], [2, 0, 0, 0, 0, 0, 0, 0, 0]),
     kazans = (80, 79), tuzdyk_indices = (None, None), player_to_move = WHITE,
     move_number = 7\<rparr>"

definition atsyrau_example :: TogyzKumalakState where
  "atsyrau_example = \<lparr>pits = ([0, 0, 0, 0, 0, 0, 0, 0, 0], [1, 2, 3, 4, 0, 0, 0, 0, 0]),
     kazans = (10, 20), tuzdyk_indices = (None, None), player_to_move = WHITE,
     move_number = 1\<rparr>"

definition drawn_example :: TogyzKumalakState where
  "drawn_example = \<lparr>pits = ([0, 0, 0, 0, 0, 0, 0, 0, 0], [0, 0, 0, 0, 0, 0, 0, 0, 0]),
     kazans = (81, 81), tuzdyk_indices = (None, None), player_to_move = WHITE,
     move_number = 1\<rparr>"

section \<open>Canonical form, keys and text serialization (src/game/encoding.py)\<close>

definition mirror_state :: "TogyzKumalakState \<Rightarrow> TogyzKumalakState" where
  "mirror_state s =
     \<lparr>pits = (entry (pits s) BLACK, entry (pits s) WHITE),
      kazans = (entry (kazans s) BLACK, entry (kazans s) WHITE),
      tuzdyk_indices = (entry (tuzdyk_indices s) BLACK, entry (tuzdyk_indices s) WHITE),
      player_to_move = opponent_of (player_to_move s),
      move_number = move_number s\<rparr>"

definition canonicalize :: "TogyzKumalakState \<Rightarrow> TogyzKumalakState" where
  "canonicalize s = (if player_to_move s = WHITE then s else mirror_state s)"

type_synonym key = "int list \<times> int list \<times> (int \<times> int) \<times> int option \<times> int option \<times> player"

definition state_key :: "TogyzKumalakState \<Rightarrow> key" where
  "state_key s =
     (entry (pits s) WHITE, entry (pits s) BLACK, kazans s,
      entry (tuzdyk_indices s) WHITE, entry (tuzdyk_indices s) BLACK, player_to_move s)"

subsection \<open>The builtins \<^verbatim>\<open>str\<close>, \<^verbatim>\<open>int\<close>, \<^verbatim>\<open>str.join\<close> and \<^verbatim>\<open>str.split\<close>\<close>

text \<open>
  A Python string is a list of characters; only code points below 256 can be written.
  \<open>py_str\<close> is \<^verbatim>\<open>str(n)\<close> for an integer: the decimal digits, after a minus sign when
  negative.
\<close>

definition digit_char :: "nat \<Rightarrow> char" where
  "digit_char d = char_of (48 + d)"

function digits_of :: "nat \<Rightarrow> string" where
  "digits_of n = (if n < 10 then [digit_char n] else digits_of (n div 10) @ [digit_char (n mod 10)])"
  by pat_completeness auto
termination
  by (relation "measure id") auto

declare digits_of.simps [simp del]

definition py_str :: "int \<Rightarrow> string" where
  "py_str i = (if i < 0 then CHR ''-'' # digits_of (nat (- i)) else digits_of (nat i))"

text \<open>
  \<open>py_int\<close> is \<^verbatim>\<open>int(x)\<close> for a string, \<open>None\<close> when it raises ValueError. Below code
  point 256 the white space that \<^verbatim>\<open>int\<close> drops around the literal is tab, line feed,
  vertical tab, form feed, carriage return, space (9 to 13 and 32), next line (133) and
  no-break space (160); the separators 28 to 31 are not dropped. One sign may lead, and the
  digits may be grouped by single underscores. The interpreter's limit on the number of
  digits of a literal (4300 by default) is not part of \<open>py_int\<close>: what is said about the
  texts that deserialization accepts is said for texts too short to reach it.
\<close>

definition is_space :: "char \<Rightarrow> bool" where
  "is_space c = ((of_char c :: nat) \<in> {9, 10, 11, 12, 13, 32, 133, 160})"

definition is_digit :: "char \<Rightarrow> bool" where
  "is_digit c = (48 \<le> (of_char c :: nat) \<and> (of_char c :: nat) \<le> 57)"

definition digit_val :: "char \<Rightarrow> nat" where
  "digit_val c = of_char c - 48"

definition strip :: "string \<Rightarrow> string" where
  "strip x = rev (dropWhile is_space (rev (dropWhile is_space x)))"

fun digits_value :: "nat \<Rightarrow> string \<Rightarrow> nat option" where
  "digits_value acc [] = Some acc"
| "digits_value acc [c] = (if is_digit c then Some (10 * acc + digit_val c) else None)"
| "digits_value acc (c # d # cs) =
     (if is_digit c then digits_value (10 * acc + digit_val c) (d # cs)
      else if c = CHR ''_'' \<and> is_digit d then digits_value (10 * acc + digit_val d) cs
      else None)"

definition parse_nat :: "string \<Rightarrow> nat option" where
  "parse_nat x =
     (case x of [] \<Rightarrow> None
      | c # cs \<Rightarrow> if is_digit c then digits_value (digit_val c) cs else None)"

definition py_int :: "string \<Rightarrow> int option" where
  "py_int x =
     (case strip x of
        [] \<Rightarrow> None
      | c # cs \<Rightarrow>
          if c = CHR ''-'' then map_option (\<lambda>n. - int n) (parse_nat cs)
          else if c = CHR ''+'' then map_option int (parse_nat cs)
          else map_option int (parse_nat (c # cs)))"

text \<open>\<^verbatim>\<open>sep.join(parts)\<close>, and \<^verbatim>\<open>x.split(sep)\<close> for a separator of one character.\<close>

fun join :: "string \<Rightarrow> string list \<Rightarrow> string" where
  "join sep [] = []"
| "join sep [x] = x"
| "join sep (x # y # ys) = x @ sep @ join sep (y # ys)"

fun split :: "char \<Rightarrow> string \<Rightarrow> string list" where
  "split sep [] = [[]]"
| "split sep (c # cs) =
     (if c = sep then [] # split sep cs
      else (case split sep cs of [] \<Rightarrow> [[c]] | y # ys \<Rightarrow> (c # y) # ys))"

subsection \<open>Serialization\<close>

definition tuz_str :: "int option \<Rightarrow> string" where
  "tuz_str x = (case x of None \<Rightarrow> ''-'' | Some i \<Rightarrow> py_str i)"

definition serialize_fen :: "TogyzKumalakState \<Rightarrow> string" where
  "serialize_fen s =
     join ''|''
       [if player_to_move s = WHITE then ''W'' else ''B'',
        join '','' [join ''-'' (map py_str (entry (pits s) WHITE)),
                   join ''-'' (map py_str (entry (pits s) BLACK))],
        py_str (entry (kazans s) WHITE) @ '','' @ py_str (entry (kazans s) BLACK),
        tuz_str (entry (tuzdyk_indices s) WHITE) @ '','' @ tuz_str (entry (tuzdyk_indices s) BLACK),
        py_str (move_number s)]"

text \<open>
  \<^verbatim>\<open>deserialize_fen\<close>. A tuple unpacking of the wrong length and a failing \<^verbatim>\<open>int\<close> both
  raise ValueError; nothing else is checked.
\<close>

definition int_list :: "string \<Rightarrow> int list option" where
  "int_list row = those (map py_int (split CHR ''-'' row))"

definition tuz_val :: "string \<Rightarrow> int option option" where
  "tuz_val x = (if x = ''-'' then Some None else map_option Some (py_int x))"

definition deserialize_fen :: "string \<Rightarrow> error + TogyzKumalakState" where
  "deserialize_fen s =
     (case split CHR ''|'' s of
        [side, pits_s, kaz_s, tuz_s, mv_s] \<Rightarrow>
          (case split CHR '','' pits_s of
             [white_pits_s, black_pits_s] \<Rightarrow>
               (case int_list white_pits_s of
                  None \<Rightarrow> Inl ValueError
                | Some white_pits \<Rightarrow>
                    (case int_list black_pits_s of
                       None \<Rightarrow> Inl ValueError
                     | Some black_pits \<Rightarrow>
                         (case split CHR '','' kaz_s of
                            [kz_w, kz_b] \<Rightarrow>
                              (case split CHR '','' tuz_s of
                                 [tuz_w, tuz_b] \<Rightarrow>
                                   (case (tuz_val tuz_w, tuz_val tuz_b, py_int kz_w, py_int kz_b,
                                          py_int mv_s) of
                                      (Some tuz_w_v, Some tuz_b_v, Some kw, Some kb, Some mv) \<Rightarrow>
                                        Inr \<lparr>pits = (white_pits, black_pits), kazans = (kw, kb),
                                             tuzdyk_indices = (tuz_w_v, tuz_b_v),
                                             player_to_move = (if side = ''W'' then WHITE else BLACK),
                                             move_number = mv\<rparr>
                                    | _ \<Rightarrow> Inl ValueError)
                               | _ \<Rightarrow> Inl ValueError)
                          | _ \<Rightarrow> Inl ValueError)))
           | _ \<Rightarrow> Inl ValueError)
      | _ \<Rightarrow> Inl ValueError)"

subsection \<open>Notions used to state the properties of the serialization\<close>

text \<open>Strings of decimal digits, and strings of digits and minus signs.\<close>

definition digits :: "string \<Rightarrow> bool" where
  "digits x = list_all is_digit x"

definition plain :: "string \<Rightarrow> bool" where
  "plain x = list_all (\<lambda>c. is_digit c \<or> c = CHR ''-'') x"

text \<open>Boards without a negative pit count.\<close>

definition nonneg :: "int list \<times> int list \<Rightarrow> bool" where
  "nonneg ps = (list_all (\<lambda>x. 0 \<le> x) (fst ps) \<and> list_all (\<lambda>x. 0 \<le> x) (snd ps))"

text \<open>
  The reachable states: the initial position, and every state that \<open>apply_move\<close> returns
  for a reachable state and one of its legal moves.
\<close>

inductive reachable :: "TogyzKumalakState \<Rightarrow> bool" where
  init: "reachable initial"
| step: "reachable s \<Longrightarrow> a \<in> set (legal_moves s) \<Longrightarrow> apply_move s a = Inr s' \<Longrightarrow> reachable s'"

text \<open>
  The shape that the text grammar asks for, and nothing more: five fields between bars;
  the pits field two rows between a comma, each row integer literals between dashes; the
  kazans field two integer literals; the tuzdyk field two items, each an integer literal or
  a dash; the move number an integer literal. An integer literal is what \<^verbatim>\<open>int\<close> accepts.
\<close>

definition int_literal :: "string \<Rightarrow> bool" where
  "int_literal x = (py_int x \<noteq> None)"

definition fen_shape :: "string \<Rightarrow> bool" where
  "fen_shape s =
     (case split CHR ''|'' s of
        [side, pits_s, kaz_s, tuz_s, mv_s] \<Rightarrow>
          (case split CHR '','' pits_s of
             [w, b] \<Rightarrow> list_all int_literal (split CHR ''-'' w) \<and>
                        list_all int_literal (split CHR ''-'' b)
           | _ \<Rightarrow> False) \<and>
          (case split CHR '','' kaz_s of
             [kw, kb] \<Rightarrow> int_literal kw \<and> int_literal kb
           | _ \<Rightarrow> False) \<and>
          (case split CHR '','' tuz_s of
             [tw, tb] \<Rightarrow> (int_literal tw \<or> tw = ''-'') \<and> (int_literal tb \<or> tb = ''-'')
           | _ \<Rightarrow> False) \<and>
          int_literal mv_s
      | _ \<Rightarrow> False)"

text \<open>A board without any stone, as a concrete input.\<close>

definition empty_board :: TogyzKumalakState where
  "empty_board = \<lparr>pits = ([0, 0, 0, 0, 0, 0, 0, 0, 0], [0, 0, 0, 0, 0, 0, 0, 0, 0]),
     kazans = (0, 0), tuzdyk_indices = (None, None), player_to_move = WHITE,
     move_number = 1\<rparr>"

section \<open>PUCT search (src/mcts/search.py)\<close>

text \<open>
  Python floats are a type \<open>'f\<close> of which only this is used: the constants \<open>0\<close> and \<open>1\<close>,
  the operators \<open>+\<close>, \<open>-\<close>, \<open>*\<close>, \<open>/\<close> and unary minus (as operations without any law:
  rounding is whatever the operations do), and the comparison, a linear order (no NaN).
  What the search takes from its environment is collected in a record: the conversion
  \<^verbatim>\<open>float(n)\<close> of an integer, \<^verbatim>\<open>math.sqrt\<close>, and the sample that \<^verbatim>\<open>_dirichlet(k, alpha)\<close>
  draws from the global random generator.
\<close>

record 'f env =
  float_of_int :: "int \<Rightarrow> 'f"
  sqrt_f :: "'f \<Rightarrow> 'f"
  dirichlet :: "nat \<Rightarrow> 'f \<Rightarrow> 'f list"

datatype 'f Node =
  Node (prior: 'f) (state: "TogyzKumalakState option") (visit_count: int) (value_sum: 'f)
    (children: "(int \<times> 'f Node) list")

text \<open>
  \<open>children\<close> is a dict from action to child: the association list of its items in
  insertion order, which is the order \<^verbatim>\<open>items()\<close> iterates in.
\<close>

definition value_of ::
  "'f::{zero,one,inverse,plus,minus,times,uminus,linorder} env \<Rightarrow>
   'f Node \<Rightarrow> 'f" where
  "value_of E n =
     (if visit_count n = 0 then 0 else value_sum n / float_of_int E (visit_count n))"

definition with_children ::
  "'f::{zero,one,inverse,plus,minus,times,uminus,linorder} Node \<Rightarrow>
   (int \<times> 'f Node) list \<Rightarrow> 'f Node" where
  "with_children n cs = Node (prior n) (state n) (visit_count n) (value_sum n) cs"

definition with_prior ::
  "'f::{zero,one,inverse,plus,minus,times,uminus,linorder} Node \<Rightarrow>
   'f \<Rightarrow> 'f Node" where
  "with_prior n p = Node p (state n) (visit_count n) (value_sum n) (children n)"

fun setdefault :: "(int \<times> 'v) list \<Rightarrow> int \<Rightarrow> 'v \<Rightarrow> (int \<times> 'v) list" where
  "setdefault [] k v = [(k, v)]"
| "setdefault ((k', v') # rest) k v =
     (if k' = k then (k', v') # rest else (k', v') # setdefault rest k v)"

fun replace_item :: "(int \<times> 'v) list \<Rightarrow> int \<Rightarrow> 'v \<Rightarrow> (int \<times> 'v) list" where
  "replace_item [] k v = []"
| "replace_item ((k', v') # rest) k v =
     (if k' = k then (k', v) # rest else (k', v') # replace_item rest k v)"

text \<open>
  The engine object. \<open>table\<close> is \<^verbatim>\<open>self._table\<close>; a reference to a node of the table is
  the key under which the table holds it (nodes are never removed or replaced by another
  object, and the children of a node are referenced from that node only). \<open>calls\<close> is
  not a field of the source: it records, in order, the states on which \<open>inference_fn\<close>
  was invoked.
\<close>

record 'f MCTS =
  inference_fn :: "TogyzKumalakState \<Rightarrow> 'f list \<times> 'f"
  c_puct :: 'f
  dirichlet_alpha :: 'f
  dirichlet_frac :: 'f
  num_simulations :: int
  table :: "key \<rightharpoonup> 'f Node"
  calls :: "TogyzKumalakState list"

definition MCTS_init ::
  "(TogyzKumalakState \<Rightarrow> 'f::{zero,one,inverse,plus,minus,times,uminus,linorder} list \<times> 'f) \<Rightarrow>
   'f \<Rightarrow> 'f \<Rightarrow> 'f \<Rightarrow> int \<Rightarrow> 'f MCTS" where
  "MCTS_init fn c alpha fr n =
     \<lparr>inference_fn = fn, c_puct = c, dirichlet_alpha = alpha, dirichlet_frac = fr,
      num_simulations = n, table = Map.empty, calls = []\<rparr>"

subsection \<open>Node management\<close>

definition get_or_create_node ::
  "'f::{zero,one,inverse,plus,minus,times,uminus,linorder} MCTS \<Rightarrow>
   TogyzKumalakState \<Rightarrow> key \<times> 'f MCTS" where
  "get_or_create_node m s =
     (let k = state_key (canonicalize s) in
      case table m k of
        None \<Rightarrow> (k, m\<lparr>table := (table m)(k \<mapsto> Node 1 (Some s) 0 0 [])\<rparr>)
      | Some n \<Rightarrow> (k, m))"

fun expand_children ::
  "'f::{zero,one,inverse,plus,minus,times,uminus,linorder} list \<Rightarrow>
   int list \<Rightarrow> (int \<times> 'f Node) list \<Rightarrow> error + (int \<times> 'f Node) list" where
  "expand_children policy [] cs = Inr cs"
| "expand_children policy (a # as) cs =
     (case py_get policy a of
        None \<Rightarrow> Inl IndexError
      | Some p \<Rightarrow> expand_children policy as (setdefault cs a (Node p None 0 0 [])))"

definition ensure_expanded ::
  "'f::{zero,one,inverse,plus,minus,times,uminus,linorder} MCTS \<Rightarrow>
   key \<Rightarrow> TogyzKumalakState \<Rightarrow> error + 'f MCTS" where
  "ensure_expanded m node s =
     (case table m node of
        None \<Rightarrow> Inl KeyError
      | Some n \<Rightarrow>
          if children n \<noteq> [] \<or> is_terminal s then Inr m
          else
            (let policy = fst (inference_fn m (canonicalize s));
                 m1 = m\<lparr>calls := calls m @ [canonicalize s]\<rparr>
             in case expand_children policy (legal_moves s) (children n) of
                  Inl e \<Rightarrow> Inl e
                | Inr cs \<Rightarrow> Inr (m1\<lparr>table := (table m1)(node \<mapsto> with_children n cs)\<rparr>)))"

subsection \<open>Selection\<close>

definition puct ::
  "'f::{zero,one,inverse,plus,minus,times,uminus,linorder} env \<Rightarrow>
   'f \<Rightarrow> int \<Rightarrow> 'f Node \<Rightarrow> 'f" where
  "puct E c total_visits child =
     value_of E child +
     c * prior child * sqrt_f E (float_of_int E total_visits)
       / float_of_int E (1 + visit_count child)"

definition child_score ::
  "'f::{zero,one,inverse,plus,minus,times,uminus,linorder} env \<Rightarrow>
   'f \<Rightarrow> int \<Rightarrow> 'f Node \<Rightarrow> error + 'f" where
  "child_score E c total_visits child =
     (if total_visits < 0 then Inl ValueError
      else if 1 + visit_count child = 0 then Inl ZeroDivisionError
      else Inr (puct E c total_visits child))"

fun select_loop ::
  "'f::{zero,one,inverse,plus,minus,times,uminus,linorder} env \<Rightarrow>
   'f \<Rightarrow> int \<Rightarrow> (int \<times> 'f Node) list \<Rightarrow>
   'f \<Rightarrow> int option \<Rightarrow> error + int option" where
  "select_loop E c total_visits [] best_score best_action = Inr best_action"
| "select_loop E c total_visits ((action, child) # rest) best_score best_action =
     (case child_score E c total_visits child of
        Inl e \<Rightarrow> Inl e
      | Inr score \<Rightarrow>
          if score > best_score then select_loop E c total_visits rest score (Some action)
          else select_loop E c total_visits rest best_score best_action)"

definition select_child ::
  "'f::{zero,one,inverse,plus,minus,times,uminus,linorder} env \<Rightarrow>
   'f \<Rightarrow> 'f Node \<Rightarrow> error + int" where
  "select_child E c node =
     (let total_visits = 1 + sum_list (map (\<lambda>(action, child). visit_count child) (children node))
      in case select_loop E c total_visits (children node)
                (float_of_int E (- 1000000000)) None of
           Inl e \<Rightarrow> Inl e
         | Inr None \<Rightarrow> Inl AssertionError
         | Inr (Some best_action) \<Rightarrow> Inr best_action)"

subsection \<open>Leaf evaluation and backup\<close>

definition evaluate ::
  "'f::{zero,one,inverse,plus,minus,times,uminus,linorder} MCTS \<Rightarrow>
   TogyzKumalakState \<Rightarrow> error + ('f \<times> 'f MCTS)" where
  "evaluate m s =
     (if is_terminal s then
        (case outcome s of
           None \<Rightarrow> Inr (0, m)
         | Some winner \<Rightarrow> Inr (if winner = player_to_move s then 1 else - 1, m))
      else
        (let (policy, v) = inference_fn m (canonicalize s);
             m1 = m\<lparr>calls := calls m @ [canonicalize s]\<rparr>;
             (node, m2) = get_or_create_node m1 s
         in case table m2 node of
              None \<Rightarrow> Inl KeyError
            | Some n \<Rightarrow>
                if children n = [] then
                  (case expand_children policy
                          (filter (\<lambda>a. a \<in> set (legal_moves s)) [0..8]) (children n) of
                     Inl e \<Rightarrow> Inl e
                   | Inr cs \<Rightarrow> Inr (v, m2\<lparr>table := (table m2)(node \<mapsto> with_children n cs)\<rparr>))
                else Inr (v, m2)))"

fun backpropagate ::
  "'f::{zero,one,inverse,plus,minus,times,uminus,linorder} MCTS \<Rightarrow>
   (key \<times> int) list \<Rightarrow> 'f \<Rightarrow> error + 'f MCTS" where
  "backpropagate m [] v = Inr m"
| "backpropagate m ((parent, action) # rest) v =
     (case table m parent of
        None \<Rightarrow> Inl KeyError
      | Some n \<Rightarrow>
          (case map_of (children n) action of
             None \<Rightarrow> Inl KeyError
           | Some ch \<Rightarrow>
               (let ch' = Node (prior ch) (state ch) (visit_count ch + 1) (value_sum ch + v)
                            (children ch);
                    n' = with_children n (replace_item (children n) action ch')
                in backpropagate (m\<lparr>table := (table m)(parent \<mapsto> n')\<rparr>) rest (- v))))"

subsection \<open>One simulation\<close>

text \<open>
  The selection loop \<^verbatim>\<open>while True\<close> of \<^verbatim>\<open>_simulate\<close>; it has no bound, so not returning
  is the value \<open>None\<close>. It returns the engine, the leaf state and the path.
\<close>

partial_function (option) descend ::
  "'f::{zero,one,inverse,plus,minus,times,uminus,linorder} env \<Rightarrow>
   'f MCTS \<Rightarrow> key \<Rightarrow> TogyzKumalakState \<Rightarrow>
   (key \<times> int) list \<Rightarrow> (error + ('f MCTS \<times> TogyzKumalakState \<times> (key \<times> int) list)) option" where
  "descend E m node s path =
     (case ensure_expanded m node s of
        Inl e \<Rightarrow> Some (Inl e)
      | Inr m1 \<Rightarrow>
          (case table m1 node of
             None \<Rightarrow> Some (Inl KeyError)
           | Some n \<Rightarrow>
               if children n = [] then Some (Inr (m1, s, path))
               else
                 (case select_child E (c_puct m1) n of
                    Inl e \<Rightarrow> Some (Inl e)
                  | Inr action \<Rightarrow>
                      (case apply_move s action of
                         Inl e \<Rightarrow> Some (Inl e)
                       | Inr s' \<Rightarrow>
                           (case get_or_create_node m1 s' of
                              (node', m2) \<Rightarrow>
                                if is_terminal s' then Some (Inr (m2, s', path @ [(node, action)]))
                                else descend E m2 node' s' (path @ [(node, action)]))))))"

declare descend.simps [code]

definition simulate ::
  "'f::{zero,one,inverse,plus,minus,times,uminus,linorder} env \<Rightarrow>
   'f MCTS \<Rightarrow> TogyzKumalakState \<Rightarrow>
   (error + 'f MCTS) option" where
  "simulate E m root_state =
     (case get_or_create_node m root_state of
        (node, m0) \<Rightarrow>
          (case descend E m0 node root_state [] of
             None \<Rightarrow> None
           | Some (Inl e) \<Rightarrow> Some (Inl e)
           | Some (Inr (m1, s, path)) \<Rightarrow>
               (case evaluate m1 s of
                  Inl e \<Rightarrow> Some (Inl e)
                | Inr (v, m2) \<Rightarrow> Some (backpropagate m2 (rev path) v))))"

subsection \<open>Search\<close>

fun mix_noise ::
  "'f::{zero,one,inverse,plus,minus,times,uminus,linorder} \<Rightarrow>
   (int \<times> 'f Node) list \<Rightarrow> 'f list \<Rightarrow> (int \<times> 'f Node) list" where
  "mix_noise fr ((a, child) # cs) (eps # noise) =
     (a, with_prior child ((1 - fr) * prior child + fr * eps)) # mix_noise fr cs noise"
| "mix_noise fr cs noise = cs"

definition add_root_dirichlet ::
  "'f::{zero,one,inverse,plus,minus,times,uminus,linorder} env \<Rightarrow>
   'f MCTS \<Rightarrow> key \<Rightarrow> error + 'f MCTS" where
  "add_root_dirichlet E m root_ref =
     (case table m root_ref of
        None \<Rightarrow> Inl KeyError
      | Some n \<Rightarrow>
          if children n = [] then Inr m
          else
            (let noise = dirichlet E (length (children n)) (dirichlet_alpha m)
             in Inr (m\<lparr>table := (table m)(root_ref \<mapsto>
                       with_children n (mix_noise (dirichlet_frac m) (children n) noise))\<rparr>)))"

text \<open>\<^verbatim>\<open>for _ in range(self.num_simulations): self._simulate(root_state)\<close>.\<close>

fun simulations ::
  "'f::{zero,one,inverse,plus,minus,times,uminus,linorder} env \<Rightarrow>
   nat \<Rightarrow> 'f MCTS \<Rightarrow>
   TogyzKumalakState \<Rightarrow> (error + 'f MCTS) option" where
  "simulations E 0 m root_state = Some (Inr m)"
| "simulations E (Suc k) m root_state =
     (case simulate E m root_state of
        None \<Rightarrow> None
      | Some (Inl e) \<Rightarrow> Some (Inl e)
      | Some (Inr m') \<Rightarrow> simulations E k m' root_state)"

fun visit_counts ::
  "'f::{zero,one,inverse,plus,minus,times,uminus,linorder} env \<Rightarrow>
   (int \<times> 'f Node) list \<Rightarrow> 'f list \<Rightarrow> error + 'f list" where
  "visit_counts E [] counts = Inr counts"
| "visit_counts E ((action, child) # rest) counts =
     (case py_set counts action (float_of_int E (visit_count child)) of
        None \<Rightarrow> Inl IndexError
      | Some counts' \<Rightarrow> visit_counts E rest counts')"

fun uniform_over ::
  "'f::{zero,one,inverse,plus,minus,times,uminus,linorder} \<Rightarrow>
   int list \<Rightarrow> 'f list \<Rightarrow> error + 'f list" where
  "uniform_over p [] counts = Inr counts"
| "uniform_over p (a # as) counts =
     (case py_set counts a p of
        None \<Rightarrow> Inl IndexError
      | Some counts' \<Rightarrow> uniform_over p as counts')"

definition policy_of ::
  "'f::{zero,one,inverse,plus,minus,times,uminus,linorder} env \<Rightarrow>
   'f Node \<Rightarrow> TogyzKumalakState \<Rightarrow> error + 'f list" where
  "policy_of E root_node root_state =
     (case visit_counts E (children root_node) (replicate 9 0) of
        Inl e \<Rightarrow> Inl e
      | Inr counts \<Rightarrow>
          (let total = foldl (+) (float_of_int E 0) counts in
           if total \<le> float_of_int E 0 then
             (let legal = legal_moves root_state
              in uniform_over (1 / float_of_int E (int (length legal))) legal counts)
           else Inr (map (\<lambda>c. c / total) counts)))"

definition search ::
  "'f::{zero,one,inverse,plus,minus,times,uminus,linorder} env \<Rightarrow>
   'f MCTS \<Rightarrow> TogyzKumalakState \<Rightarrow>
   (error + ('f list \<times> 'f MCTS)) option" where
  "search E m root_state =
     (case get_or_create_node m root_state of
        (root_ref, m0) \<Rightarrow>
          (case ensure_expanded m0 root_ref root_state of
             Inl e \<Rightarrow> Some (Inl e)
           | Inr m1 \<Rightarrow>
               (case add_root_dirichlet E m1 root_ref of
                  Inl e \<Rightarrow> Some (Inl e)
                | Inr m2 \<Rightarrow>
                    (case simulations E (nat (num_simulations m2)) m2 root_state of
                       None \<Rightarrow> None
                     | Some (Inl e) \<Rightarrow> Some (Inl e)
                     | Some (Inr m3) \<Rightarrow>
                         (case table m3 root_ref of
                            None \<Rightarrow> Some (Inl KeyError)
                          | Some root_node \<Rightarrow>
                              (case policy_of E root_node root_state of
                                 Inl e \<Rightarrow> Some (Inl e)
                               | Inr policy \<Rightarrow> Some (Inr (policy, m3))))))))"

subsection \<open>Notions used to state the properties of the search\<close>

text \<open>
  \<open>is_choice sc cs a\<close>: among the items \<open>cs\<close> of a children dict, action \<open>a\<close> has a child of
  maximal score \<open>sc\<close>, and no action below \<open>a\<close> has a child of the same score.
  \<open>children_visits\<close> is the sum of the visit counts of a node's children.
\<close>

definition is_choice ::
  "('f Node \<Rightarrow> 'f::linorder) \<Rightarrow> (int \<times> 'f Node) list \<Rightarrow> int \<Rightarrow> bool" where
  "is_choice sc cs a =
     list_ex (\<lambda>(b, ch). b = a \<and>
        list_all (\<lambda>(b', ch'). sc ch' < sc ch \<or> (sc ch' = sc ch \<and> a \<le> b')) cs) cs"

definition children_visits :: "'f Node \<Rightarrow> int" where
  "children_visits node = sum_list (map (\<lambda>(action, child). visit_count child) (children node))"

text \<open>
  \<open>grows m m'\<close>: every key of the table of \<open>m\<close> is a key of the table of \<open>m'\<close>, and the
  evaluator calls of \<open>m'\<close> are those of \<open>m\<close> followed by calls on non-terminal states only.
\<close>

definition grows :: "'f MCTS \<Rightarrow> 'f MCTS \<Rightarrow> bool" where
  "grows m m' =
     (dom (table m) \<subseteq> dom (table m') \<and>
      (\<exists>new. calls m' = calls m @ new \<and> list_all (\<lambda>c. \<not> is_terminal c) new))"

text \<open>
  The value of a terminal state for its player to move: \<open>1\<close> when the final score of the
  mover is the higher one, \<open>-1\<close> when the opponent's is, \<open>0\<close> when they are equal.
\<close>

definition terminal_value ::
  "TogyzKumalakState \<Rightarrow> 'f::{zero,one,inverse,plus,minus,times,uminus,linorder}" where
  "terminal_value s =
     (let scores = final_scores s;
          mine = entry scores (player_to_move s);
          theirs = entry scores (opponent_of (player_to_move s))
      in if mine > theirs then 1 else if theirs > mine then - 1 else 0)"

text \<open>
  Concrete inputs: floats as real numbers with the exact square root; a node just expanded
  with two children; a position one move from its end and the terminal position that the
  move leads to (White then has 82); an evaluator with uniform priors; an engine with the
  default parameters and two simulations per search.
\<close>

definition real_env :: "real env" where
  "real_env = \<lparr>float_of_int = of_int, sqrt_f = sqrt,
     dirichlet = (\<lambda>k alpha. replicate k (1 / of_nat k))\<rparr>"

definition fresh_node :: "real Node" where
  "fresh_node = Node 1 None 0 0 [(0, Node (1 / 4) None 0 0 []), (1, Node (1 / 2) None 0 0 [])]"

definition near_end :: TogyzKumalakState where
  "near_end = \<lparr>pits = ([1, 0, 0, 0, 0, 0, 0, 0, 0], [0, 0, 0, 0, 0, 0, 0, 0, 0]),
     kazans = (81, 80), tuzdyk_indices = (None, None), player_to_move = WHITE,
     move_number = 99\<rparr>"

definition near_end_leaf :: TogyzKumalakState where
  "near_end_leaf = \<lparr>pits = ([0, 1, 0, 0, 0, 0, 0, 0, 0], [0, 0, 0, 0, 0, 0, 0, 0, 0]),
     kazans = (81, 80), tuzdyk_indices = (None, None), player_to_move = BLACK,
     move_number = 100\<rparr>"

definition uniform_eval :: "TogyzKumalakState \<Rightarrow> real list \<times> real" where
  "uniform_eval s = (replicate 9 (1 / 9), 0)"

definition engine0 :: "real MCTS" where
  "engine0 = MCTS_init uniform_eval (3 / 2) (3 / 10) (1 / 4) 2"

section \<open>Properties of the board state engine\<close>

subsection \<open>Subscripts, rows and sums\<close>

lemma py_index_Some: "py_index xs i = Some j \<Longrightarrow> j < length xs"
  by (auto simp: py_index_def Let_def split: if_splits)

lemma py_index_on_board: "length xs = 9 \<Longrightarrow> on_board i \<Longrightarrow> \<exists>j. py_index xs i = Some j"
  by (auto simp: py_index_def Let_def on_board_def)

lemma entry_put: "entry (put p side v) side' = (if side' = side then v else entry p side')"
  by (cases p; cases side; cases side') auto

lemma board_sum_put:
  "board_sum (put ps side xs) = board_sum ps - sum_list (entry ps side) + sum_list xs"
  by (cases ps; cases side) (auto simp: board_sum_def)

lemma ksum_put:
  "fst (put kz side v) + snd (put kz side v) = fst kz + snd kz - entry kz side + (v::int)"
  by (cases kz; cases side) auto

lemma rows9_put: "rows9 ps \<Longrightarrow> length xs = 9 \<Longrightarrow> rows9 (put ps side xs)"
  by (cases ps; cases side) (auto simp: rows9_def)

lemma rows9_entry: "rows9 ps \<Longrightarrow> length (entry ps side) = 9"
  by (cases ps; cases side) (auto simp: rows9_def)

lemma sum_list_update_int:
  "k < length xs \<Longrightarrow> sum_list (xs[k := v]) = sum_list xs - xs ! k + (v::int)"
  by (induction xs arbitrary: k) (auto split: nat.splits)

lemma set_pit_sum:
  assumes "set_pit ps side idx v = Some ps'"
  shows "\<exists>c. get_pit ps side idx = Some c \<and> board_sum ps' = board_sum ps - c + v"
    and "rows9 ps \<Longrightarrow> rows9 ps'"
proof -
  from assms obtain j where j: "py_index (entry ps side) idx = Some j"
    and ps': "ps' = put ps side ((entry ps side)[j := v])"
    by (auto simp: set_pit_def py_set_def)
  from j have "j < length (entry ps side)" by (rule py_index_Some)
  then show "\<exists>c. get_pit ps side idx = Some c \<and> board_sum ps' = board_sum ps - c + v"
    using j ps' by (simp add: get_pit_def py_get_def board_sum_put sum_list_update_int)
  show "rows9 ps \<Longrightarrow> rows9 ps'"
    using ps' by (simp add: rows9_put rows9_entry)
qed

lemma set_pit_ok: "rows9 ps \<Longrightarrow> on_board idx \<Longrightarrow> \<exists>ps'. set_pit ps side idx v = Some ps'"
  using py_index_on_board [OF rows9_entry, of ps idx side]
  by (auto simp: set_pit_def py_set_def)

lemma get_pit_ok: "rows9 ps \<Longrightarrow> on_board idx \<Longrightarrow> \<exists>c. get_pit ps side idx = Some c"
  using py_index_on_board [OF rows9_entry, of ps idx side]
  by (auto simp: get_pit_def py_get_def)

lemma incr_pit_sum:
  assumes "incr_pit ps side idx = Some ps'"
  shows "board_sum ps' = board_sum ps + 1" and "rows9 ps \<Longrightarrow> rows9 ps'"
  using assms set_pit_sum [of ps side idx]
  by (auto simp: incr_pit_def split: option.splits)

lemma incr_pit_ok: "rows9 ps \<Longrightarrow> on_board idx \<Longrightarrow> \<exists>ps'. incr_pit ps side idx = Some ps'"
  using get_pit_ok [of ps idx side] set_pit_ok [of ps idx side]
  by (auto simp: incr_pit_def)

lemma on_board_next: "on_board (snd cur) \<Longrightarrow> on_board (snd (next_pos cur))"
  by (auto simp: next_pos_def on_board_def)

subsection \<open>The sowing loop\<close>

lemma sow_sum:
  "sow tuz n cur lc ps kz = Inr (ps', kz', lc') \<Longrightarrow> 0 \<le> n \<Longrightarrow>
   board_sum ps' + (fst kz' + snd kz') = board_sum ps + (fst kz + snd kz) + n"
proof (induction tuz n cur lc ps kz rule: sow.induct)
  case (1 tuz n cur lc ps kz)
  show ?case
  proof (cases "n > 0")
    case False
    with "1.prems" show ?thesis by (simp add: sow.simps)
  next
    case pos: True
    show ?thesis
    proof (cases "tuzdyk_owner_at tuz (fst cur) (snd cur)")
      case (Some owner)
      with pos "1.prems" "1.IH"(2) [OF pos Some] show ?thesis
        by (simp add: sow.simps [of tuz n] ksum_put)
    next
      case None
      with pos "1.prems" obtain ps1 where inc: "incr_pit ps (fst cur) (snd cur) = Some ps1"
        by (auto simp: sow.simps [of tuz n] split: option.splits)
      with pos None "1.prems" "1.IH"(1) [OF pos None inc] incr_pit_sum(1) [OF inc]
      show ?thesis by (simp add: sow.simps [of tuz n])
    qed
  qed
qed

lemma sow_ok:
  "rows9 ps \<Longrightarrow> on_board (snd cur) \<Longrightarrow> on_board (snd lc) \<Longrightarrow>
   \<exists>ps' kz' lc'. sow tuz n cur lc ps kz = Inr (ps', kz', lc') \<and> rows9 ps' \<and> on_board (snd lc')"
proof (induction tuz n cur lc ps kz rule: sow.induct)
  case (1 tuz n cur lc ps kz)
  show ?case
  proof (cases "n > 0")
    case False
    with "1.prems" show ?thesis by (simp add: sow.simps)
  next
    case pos: True
    have nx: "on_board (snd (if 0 < n - 1 then next_pos cur else cur))"
      using "1.prems"(2) on_board_next by simp
    show ?thesis
    proof (cases "tuzdyk_owner_at tuz (fst cur) (snd cur)")
      case (Some owner)
      with pos "1.IH"(2) [OF pos Some "1.prems"(1) nx "1.prems"(3)] show ?thesis
        by (simp add: sow.simps [of tuz n])
    next
      case None
      from incr_pit_ok [OF "1.prems"(1,2)] obtain ps1
        where inc: "incr_pit ps (fst cur) (snd cur) = Some ps1" by blast
      with pos None "1.IH"(1) [OF pos None inc incr_pit_sum(2) [OF inc "1.prems"(1)] nx "1.prems"(2)]
      show ?thesis by (simp add: sow.simps [of tuz n])
    qed
  qed
qed

lemma capture_sum:
  "capture s mover tuz (ps, kz, lc) = Inr (ps', kz', tuz') \<Longrightarrow>
   board_sum ps' + (fst kz' + snd kz') = board_sum ps + (fst kz + snd kz)"
  by (auto simp: capture_def Let_def ksum_put split: if_splits option.splits
      dest!: set_pit_sum(1))

lemma capture_ok:
  "rows9 ps \<Longrightarrow> on_board (snd lc) \<Longrightarrow> \<exists>r. capture s mover tuz (ps, kz, lc) = Inr r"
  using get_pit_ok [of ps "snd lc" "opponent_of mover"]
    set_pit_ok [of ps "snd lc" "opponent_of mover" 0]
  by (auto simp: capture_def Let_def)

lemma legal_movesD:
  "a \<in> set (legal_moves s) \<Longrightarrow>
   0 \<le> a \<and> a < int (length (entry (pits s) (player_to_move s))) \<and>
   entry (pits s) (player_to_move s) ! nat a > 0"
  by (auto simp: legal_moves_def in_set_enumerate_eq)

lemma pick_up_ok:
  assumes shape: "rows9 (pits s)" and idx: "on_board a"
    and stones: "get_pit (pits s) (player_to_move s) a = Some c" and pos: "0 < c"
  shows "\<exists>ps1. pick_up s a = Inr (ps1, (if c > 1 then c - 1 else c), next_pos (player_to_move s, a))
           \<and> board_sum ps1 + (if c > 1 then c - 1 else c) = board_sum (pits s) \<and> rows9 ps1"
proof -
  let ?m = "player_to_move s"
  from set_pit_ok [OF shape idx] obtain ps0 where ps0: "set_pit (pits s) ?m a 0 = Some ps0"
    by blast
  from set_pit_sum [OF ps0] stones shape
  have sum0: "board_sum ps0 = board_sum (pits s) - c" and shape0: "rows9 ps0" by auto
  show ?thesis
  proof (cases "c > 1")
    case True
    from incr_pit_ok [OF shape0 idx] obtain q where q: "incr_pit ps0 ?m a = Some q" by blast
    with True incr_pit_sum [OF q] sum0 shape0 stones ps0 show ?thesis
      by (simp add: pick_up_def)
  next
    case False
    with pos sum0 shape0 stones ps0 show ?thesis by (simp add: pick_up_def)
  qed
qed

lemma sowing_ok:
  assumes shape: "rows9 (pits s)" and idx: "on_board a"
    and stones: "get_pit (pits s) (player_to_move s) a = Some c" and pos: "0 < c"
  shows "\<exists>ps kz lc. sowing s a = Inr (ps, kz, lc) \<and> rows9 ps \<and> on_board (snd lc) \<and>
           board_sum ps + (fst kz + snd kz) = total_seeds s"
proof -
  let ?n = "if c > 1 then c - 1 else c"
  let ?cur = "next_pos (player_to_move s, a)"
  from pick_up_ok [OF assms] obtain ps1 where pk: "pick_up s a = Inr (ps1, ?n, ?cur)"
    and sum1: "board_sum ps1 + ?n = board_sum (pits s)" and shape1: "rows9 ps1" by blast
  have n: "0 \<le> ?n" using pos by simp
  have cur: "on_board (snd ?cur)" using on_board_next [of "(player_to_move s, a)"] idx by simp
  from sow_ok [OF shape1 cur cur] obtain ps2 kz2 lc
    where sw: "sow (tuzdyk_indices s) ?n ?cur ?cur ps1 (kazans s) = Inr (ps2, kz2, lc)"
      and shape2: "rows9 ps2" and lc: "on_board (snd lc)" by blast
  from sow_sum [OF sw n] sum1
  have "board_sum ps2 + (fst kz2 + snd kz2) = total_seeds s"
    by (simp add: total_seeds_def)
  with pk sw shape2 lc show ?thesis by (simp add: sowing_def)
qed

lemma capture_rows9:
  "capture s mover tuz (ps, kz, lc) = Inr (ps', kz', tuz') \<Longrightarrow> rows9 ps \<Longrightarrow> rows9 ps'"
  by (auto simp: capture_def Let_def split: if_splits option.splits dest: set_pit_sum(2))

lemma apply_move_sum:
  assumes shape: "rows9 (pits s)" and idx: "on_board a"
    and stones: "get_pit (pits s) (player_to_move s) a = Some c" and pos: "0 < c"
  shows "\<exists>s'. apply_move s a = Inr s' \<and> total_seeds s' = total_seeds s \<and> rows9 (pits s')"
proof -
  from sowing_ok [OF assms] obtain ps2 kz2 lc
    where sw: "sowing s a = Inr (ps2, kz2, lc)" and shape2: "rows9 ps2"
      and lc: "on_board (snd lc)"
      and sum2: "board_sum ps2 + (fst kz2 + snd kz2) = total_seeds s" by blast
  from capture_ok [OF shape2 lc] obtain ps3 kz3 tuz3
    where cp: "capture s (player_to_move s) (tuzdyk_indices s) (ps2, kz2, lc) = Inr (ps3, kz3, tuz3)"
    by (metis prod_cases3)
  from capture_sum [OF cp] sum2
  have sum3: "board_sum ps3 + (fst kz3 + snd kz3) = total_seeds s" by simp
  from capture_rows9 [OF cp shape2] have shape3: "rows9 ps3" .
  show ?thesis
    using sw cp sum3 shape3 by (simp add: apply_move_def Let_def total_seeds_def)
qed

lemma legal_get_pit:
  assumes "a \<in> set (legal_moves s)"
  shows "\<exists>c. get_pit (pits s) (player_to_move s) a = Some c \<and> 0 < c"
  using legal_movesD [OF assms]
  by (auto simp: get_pit_def py_get_def py_index_def Let_def)

text \<open>
  C1. Seed conservation: in a state with two rows of nine pits whose pits and kazans sum
  to 162, every legal action (an index listed by \<open>legal_moves\<close>, that is a non-empty pit
  of the mover) is applied without error, and the pits and kazans of the state that
  \<open>apply_move\<close> returns sum to 162 again.
\<close>

theorem apply_move_conserves_seeds:
  assumes shape: "rows9 (pits s)"
    and total: "total_seeds s = 162"
    and legal: "a \<in> set (legal_moves s)"
  shows "\<exists>s'. apply_move s a = Inr s' \<and> total_seeds s' = 162"
proof -
  from legal_movesD [OF legal] shape have "on_board a"
    by (simp add: on_board_def rows9_entry)
  with legal_get_pit [OF legal] apply_move_sum [OF shape] total show ?thesis
    by metis
qed

theorem apply_move_conserves_seeds_witness:
  "rows9 (pits initial) \<and> total_seeds initial = 162 \<and> 0 \<in> set (legal_moves initial) \<and>
   (\<exists>s'. apply_move initial 0 = Inr s' \<and> total_seeds s' = 162)"
proof -
  have a: "rows9 (pits initial)" by (simp add: rows9_def initial_def)
  have b: "total_seeds initial = 162" by (simp add: total_seeds_def board_sum_def initial_def sum_list_replicate)
  have c: "0 \<in> set (legal_moves initial)" by code_simp
  from a b c apply_move_conserves_seeds [OF a b c] show ?thesis by blast
qed

subsection \<open>The last affected cell\<close>

lemma last_affected_Cons:
  "last_affected tuz (c # cs) =
     (case last_affected tuz cs of
        Some d \<Rightarrow> Some d
      | None \<Rightarrow> if tuzdyk_owner_at tuz (fst c) (snd c) = None then Some c else None)"
  by (auto simp: last_affected_def split: list.splits)

lemma ring_cells_pos: "0 < n \<Longrightarrow> ring_cells (nat n) c = c # ring_cells (nat (n - 1)) (next_pos c)"
  by (cases "nat n") (auto simp: nat_diff_distrib nat_eq_iff2 dest: sym)

lemma sow_last:
  "sow tuz n cur lc ps kz = Inr (ps', kz', lc') \<Longrightarrow>
   lc' = (case last_affected tuz (ring_cells (nat n) cur) of None \<Rightarrow> lc | Some c \<Rightarrow> c)"
proof (induction tuz n cur lc ps kz rule: sow.induct)
  case (1 tuz n cur lc ps kz)
  show ?case
  proof (cases "n > 0")
    case False
    with "1.prems" show ?thesis by (simp add: sow.simps last_affected_def)
  next
    case pos: True
    let ?rest = "ring_cells (nat (n - 1)) (next_pos cur)"
    have cells: "ring_cells (nat (n - 1)) (if 0 < n - 1 then next_pos cur else cur) = ?rest"
      by (cases "0 < n - 1") auto
    have rc: "ring_cells (nat n) cur = cur # ?rest" using pos by (rule ring_cells_pos)
    show ?thesis
    proof (cases "tuzdyk_owner_at tuz (fst cur) (snd cur)")
      case (Some owner)
      from pos Some "1.prems"
      have "sow tuz (n - 1) (if 0 < n - 1 then next_pos cur else cur) lc ps
              (put kz owner (entry kz owner + 1)) = Inr (ps', kz', lc')"
        by (simp add: sow.simps [of tuz n])
      from "1.IH"(2) [OF pos Some this]
      have "lc' = (case last_affected tuz ?rest of None \<Rightarrow> lc | Some c \<Rightarrow> c)"
        unfolding cells .
      with Some show ?thesis
        unfolding rc last_affected_Cons by (simp split: option.splits)
    next
      case None
      with pos "1.prems" obtain ps1 where inc: "incr_pit ps (fst cur) (snd cur) = Some ps1"
        by (auto simp: sow.simps [of tuz n] split: option.splits)
      from pos None inc "1.prems"
      have "sow tuz (n - 1) (if 0 < n - 1 then next_pos cur else cur) cur ps1 kz
              = Inr (ps', kz', lc')"
        by (simp add: sow.simps [of tuz n])
      from "1.IH"(1) [OF pos None inc this]
      have "lc' = (case last_affected tuz ?rest of None \<Rightarrow> cur | Some c \<Rightarrow> c)"
        unfolding cells .
      with None show ?thesis
        unfolding rc last_affected_Cons by (simp split: option.splits)
    qed
  qed
qed

lemma get_pit_in_row:
  "rows9 ps \<Longrightarrow> in_row i \<Longrightarrow> get_pit ps side i = Some (stones_at ps (side, i))"
  by (simp add: get_pit_def py_get_def py_index_def in_row_def rows9_entry stones_at_def)

lemma set_pit_in_row:
  "rows9 ps \<Longrightarrow> in_row i \<Longrightarrow>
   set_pit ps side i v = Some (put ps side ((entry ps side)[nat i := v]))"
  by (simp add: set_pit_def py_set_def py_index_def in_row_def rows9_entry)

lemma stones_at_put:
  "rows9 ps \<Longrightarrow> in_row i \<Longrightarrow> in_row (snd q) \<Longrightarrow>
   stones_at (put ps side ((entry ps side)[nat i := v])) q =
     (if q = (side, i) then v else stones_at ps q)"
  by (cases q) (auto simp: stones_at_def entry_put rows9_entry in_row_def nth_list_update)

lemma incr_pit_in_row:
  assumes "rows9 ps" "in_row i" "in_row (snd q)" "incr_pit ps side i = Some ps'"
  shows "stones_at ps' q = stones_at ps q + (if q = (side, i) then 1 else 0)"
  using assms
  by (auto simp: incr_pit_def get_pit_in_row set_pit_in_row stones_at_put)

lemma in_row_next: "in_row (snd c) \<Longrightarrow> in_row (snd (next_pos c))"
  by (auto simp: in_row_def next_pos_def)

lemma in_row_on_board: "in_row i \<Longrightarrow> on_board i"
  by (simp add: in_row_def on_board_def)

lemma sow_count:
  "sow tuz n cur lc ps kz = Inr (ps', kz', lc') \<Longrightarrow> rows9 ps \<Longrightarrow> in_row (snd cur) \<Longrightarrow>
   in_row (snd q) \<Longrightarrow> tuzdyk_owner_at tuz (fst q) (snd q) = None \<Longrightarrow>
   stones_at ps' q = stones_at ps q + int (count_list (ring_cells (nat n) cur) q)"
proof (induction tuz n cur lc ps kz rule: sow.induct)
  case (1 tuz n cur lc ps kz)
  show ?case
  proof (cases "n > 0")
    case False
    with "1.prems" show ?thesis by (simp add: sow.simps)
  next
    case pos: True
    let ?rest = "ring_cells (nat (n - 1)) (next_pos cur)"
    have cells: "ring_cells (nat (n - 1)) (if 0 < n - 1 then next_pos cur else cur) = ?rest"
      by (cases "0 < n - 1") auto
    have rc: "ring_cells (nat n) cur = cur # ?rest" using pos by (rule ring_cells_pos)
    have nx: "in_row (snd (if 0 < n - 1 then next_pos cur else cur))"
      using "1.prems"(3) in_row_next by simp
    show ?thesis
    proof (cases "tuzdyk_owner_at tuz (fst cur) (snd cur)")
      case (Some owner)
      with "1.prems"(5) have ne: "q \<noteq> cur" by auto
      from pos Some "1.prems"
      have "sow tuz (n - 1) (if 0 < n - 1 then next_pos cur else cur) lc ps
              (put kz owner (entry kz owner + 1)) = Inr (ps', kz', lc')"
        by (simp add: sow.simps [of tuz n])
      from "1.IH"(2) [OF pos Some this "1.prems"(2) nx "1.prems"(4,5)]
      have "stones_at ps' q = stones_at ps q + int (count_list ?rest q)"
        unfolding cells .
      with ne show ?thesis unfolding rc by simp
    next
      case None
      with pos "1.prems" obtain ps1 where inc: "incr_pit ps (fst cur) (snd cur) = Some ps1"
        by (auto simp: sow.simps [of tuz n] split: option.splits)
      have sh1: "rows9 ps1" using incr_pit_sum(2) [OF inc "1.prems"(2)] .
      from incr_pit_in_row [OF "1.prems"(2,3,4) inc]
      have st: "stones_at ps1 q = stones_at ps q + (if q = cur then 1 else 0)" by simp
      from pos None inc "1.prems"
      have "sow tuz (n - 1) (if 0 < n - 1 then next_pos cur else cur) cur ps1 kz
              = Inr (ps', kz', lc')"
        by (simp add: sow.simps [of tuz n])
      from "1.IH"(1) [OF pos None inc this sh1 nx "1.prems"(4,5)]
      have "stones_at ps' q = stones_at ps1 q + int (count_list ?rest q)"
        unfolding cells .
      with st show ?thesis unfolding rc by simp
    qed
  qed
qed

lemma last_affected_SomeD:
  assumes "last_affected tuz cells = Some c"
  shows "c \<in> set cells \<and> tuzdyk_owner_at tuz (fst c) (snd c) = None"
proof -
  let ?f = "filter (\<lambda>c. tuzdyk_owner_at tuz (fst c) (snd c) = None) cells"
  from assms have "?f \<noteq> []" and "c = last ?f"
    by (auto simp: last_affected_def split: list.splits)
  then have "c \<in> set ?f" using last_in_set [of ?f] by simp
  then show ?thesis by simp
qed

lemma ring_cells_in_row: "in_row (snd c) \<Longrightarrow> d \<in> set (ring_cells k c) \<Longrightarrow> in_row (snd d)"
proof (induction k arbitrary: c)
  case 0
  then show ?case by simp
next
  case (Suc k)
  from Suc.prems(2) have "d = c \<or> d \<in> set (ring_cells k (next_pos c))" by simp
  with Suc.IH [OF in_row_next [OF Suc.prems(1)]] Suc.prems(1) show ?case by blast
qed

lemma opponent_of_neq [simp]: "opponent_of p \<noteq> p" "p \<noteq> opponent_of p"
  by (cases p; simp add: opponent_of_def)+

lemma pick_up_other_row:
  assumes pk: "pick_up s a = Inr (ps1, n, cur)" and shape: "rows9 (pits s)"
    and a: "in_row a" and q: "in_row (snd q)" "fst q \<noteq> player_to_move s"
  shows "stones_at ps1 q = stones_at (pits s) q"
proof -
  let ?m = "player_to_move s"
  let ?ps0 = "put (pits s) ?m ((entry (pits s) ?m)[nat a := 0])"
  have s0: "set_pit (pits s) ?m a 0 = Some ?ps0" using shape a by (rule set_pit_in_row)
  have sh0: "rows9 ?ps0" using set_pit_sum(2) [OF s0 shape] .
  have ne: "q \<noteq> (?m, a)" using q(2) by auto
  have st0: "stones_at ?ps0 q = stones_at (pits s) q"
    using stones_at_put [OF shape a q(1), of ?m 0] ne by simp
  show ?thesis
  proof (cases "1 < stones_at (pits s) (?m, a)")
    case True
    with pk s0 obtain inc where inc: "incr_pit ?ps0 ?m a = Some inc" and "ps1 = inc"
      by (auto simp: pick_up_def Let_def get_pit_in_row [OF shape a] split: if_splits option.splits)
    with incr_pit_in_row [OF sh0 a q(1) inc] ne st0 show ?thesis by simp
  next
    case False
    with pk s0 have "ps1 = ?ps0"
      by (auto simp: pick_up_def Let_def get_pit_in_row [OF shape a] split: if_splits option.splits)
    with st0 show ?thesis by simp
  qed
qed

lemma legal_in_row: "rows9 (pits s) \<Longrightarrow> a \<in> set (legal_moves s) \<Longrightarrow> in_row a"
  using legal_movesD [of a s] by (simp add: in_row_def rows9_entry)

lemma can_create_tuzdyk_iff:
  "can_create_tuzdyk s mover i \<longleftrightarrow>
   entry (tuzdyk_indices s) mover = None \<and> i \<noteq> 8 \<and>
   entry (tuzdyk_indices s) (opponent_of mover) \<noteq> Some i"
  by (auto simp: can_create_tuzdyk_def Let_def)

text \<open>
  C2. For a legal move whose last affected cell is the opponent's pit \<open>i\<close>: the sowing
  ends with that cell recorded, the cell then holds what it held before the move plus one
  stone for each time the sowing passed it, and \<open>apply_move\<close> returns exactly the state
  of \<open>after_capture\<close>: with a count of 3, no tuzdyk of the mover, \<open>i \<noteq> 8\<close> and \<open>i\<close> not
  the opponent's tuzdyk index, a tuzdyk is created at \<open>i\<close>, 3 stones go to the mover's
  kazan and the cell is zeroed (this test comes first); else with an even positive count
  all stones of the cell go to the mover's kazan and the cell is zeroed; else pits,
  kazans and tuzdyks stay as the sowing left them.
\<close>

theorem capture_on_last_affected_cell:
  assumes shape: "rows9 (pits s)"
    and legal: "a \<in> set (legal_moves s)"
    and la: "last_affected (tuzdyk_indices s) (sown_cells s a)
               = Some (opponent_of (player_to_move s), i)"
  shows "\<exists>ps kz. sowing s a = Inr (ps, kz, (opponent_of (player_to_move s), i)) \<and>
           stones_at ps (opponent_of (player_to_move s), i) =
             stones_at (pits s) (opponent_of (player_to_move s), i) +
             int (count_list (sown_cells s a) (opponent_of (player_to_move s), i)) \<and>
           apply_move s a = Inr (after_capture s ps kz i)"
proof -
  let ?m = "player_to_move s" and ?tz = "tuzdyk_indices s"
  let ?o = "opponent_of ?m"
  let ?c = "entry (pits s) ?m ! nat a"
  let ?n = "if ?c > 1 then ?c - 1 else ?c"
  let ?cur = "next_pos (?m, a)"
  have a: "in_row a" using shape legal by (rule legal_in_row)
  have c: "get_pit (pits s) ?m a = Some ?c" "0 < ?c"
    using legal_movesD [OF legal] get_pit_in_row [OF shape a, of ?m] by (simp_all add: stones_at_def)
  from pick_up_ok [OF shape in_row_on_board [OF a] c] obtain ps1
    where pk: "pick_up s a = Inr (ps1, ?n, ?cur)" and sh1: "rows9 ps1" by blast
  have cur: "in_row (snd ?cur)" using in_row_next [of "(?m, a)"] a by simp
  from sow_ok [OF sh1 in_row_on_board [OF cur] in_row_on_board [OF cur]] obtain ps kz lc
    where sw: "sow ?tz ?n ?cur ?cur ps1 (kazans s) = Inr (ps, kz, lc)" and sh: "rows9 ps" by blast
  have cells: "sown_cells s a = ring_cells (nat ?n) ?cur" by (simp add: sown_cells_def Let_def)
  from sow_last [OF sw] la have lc: "lc = (?o, i)" by (simp add: cells)
  from last_affected_SomeD [OF la]
  have mem: "(?o, i) \<in> set (ring_cells (nat ?n) ?cur)" and free: "tuzdyk_owner_at ?tz ?o i = None"
    by (simp_all add: cells)
  from ring_cells_in_row [OF cur mem] have i: "in_row i" by simp
  have "stones_at ps (?o, i) = stones_at ps1 (?o, i) + int (count_list (ring_cells (nat ?n) ?cur) (?o, i))"
    using sow_count [OF sw sh1 cur, of "(?o, i)"] i free by simp
  moreover have "stones_at ps1 (?o, i) = stones_at (pits s) (?o, i)"
    using pick_up_other_row [OF pk shape a, of "(?o, i)"] i by simp
  ultimately have cnt: "stones_at ps (?o, i) =
      stones_at (pits s) (?o, i) + int (count_list (sown_cells s a) (?o, i))"
    by (simp add: cells)
  have sg: "sowing s a = Inr (ps, kz, (?o, i))" using pk sw lc by (simp add: sowing_def)
  have "apply_move s a = Inr (after_capture s ps kz i)"
    using sg free
    by (simp add: apply_move_def capture_def Let_def get_pit_in_row [OF sh i]
        set_pit_in_row [OF sh i] can_create_tuzdyk_iff after_capture_def)
  with sg cnt show ?thesis by blast
qed

theorem capture_on_last_affected_cell_witness:
  "rows9 (pits tuz_example) \<and> 8 \<in> set (legal_moves tuz_example) \<and>
   last_affected (tuzdyk_indices tuz_example) (sown_cells tuz_example 8)
     = Some (opponent_of (player_to_move tuz_example), 0) \<and>
   apply_move tuz_example 8 =
     Inr \<lparr>pits = ([0,0,0,0,0,0,0,0,0], [0,0,0,0,0,0,0,0,0]), kazans = (83, 79),
          tuzdyk_indices = (Some 0, None), player_to_move = BLACK, move_number = 8\<rparr>"
proof -
  have h1: "rows9 (pits tuz_example)" by (simp add: rows9_def tuz_example_def)
  have h2: "8 \<in> set (legal_moves tuz_example)" by code_simp
  have h3: "last_affected (tuzdyk_indices tuz_example) (sown_cells tuz_example 8)
     = Some (opponent_of (player_to_move tuz_example), 0)" by code_simp
  from capture_on_last_affected_cell [OF h1 h2 h3] obtain ps kz
    where sg: "sowing tuz_example 8 = Inr (ps, kz, (opponent_of (player_to_move tuz_example), 0))"
      and ap: "apply_move tuz_example 8 = Inr (after_capture tuz_example ps kz 0)" by blast
  have "sowing tuz_example 8 = Inr (([0,0,0,0,0,0,0,0,0], [3,0,0,0,0,0,0,0,0]), (80, 79), (BLACK, 0))"
    by code_simp
  with sg have "ps = ([0,0,0,0,0,0,0,0,0], [3,0,0,0,0,0,0,0,0])" "kz = (80, 79)" by simp_all
  with ap have "apply_move tuz_example 8 =
     Inr \<lparr>pits = ([0,0,0,0,0,0,0,0,0], [0,0,0,0,0,0,0,0,0]), kazans = (83, 79),
          tuzdyk_indices = (Some 0, None), player_to_move = BLACK, move_number = 8\<rparr>"
    by (simp add: after_capture_def tuz_example_def stones_at_def opponent_of_def)
  with h1 h2 h3 show ?thesis by blast
qed

subsection \<open>Terminal scoring and outcome\<close>

lemma entry_fst_snd: "entry p WHITE = fst p" "entry p BLACK = snd p"
  by (cases p; simp)+

text \<open>
  C7. In a terminal state, \<open>final_scores\<close> returns the kazans unchanged when one of them
  is at least 82; otherwise the state is terminal by atsyrau (the mover has no legal
  move) and each row is added to the kazan of its own side. In the position with White's
  row empty, Black's row 1, 2, 3, 4, 0, ..., kazans (10, 20) and White to move, the result
  is (10, 30).
\<close>

theorem final_scores_terminal:
  "(is_terminal s \<longrightarrow>
      final_scores s =
        (if fst (kazans s) \<ge> 82 \<or> snd (kazans s) \<ge> 82 then kazans s
         else (fst (kazans s) + sum_list (fst (pits s)),
               snd (kazans s) + sum_list (snd (pits s))))) \<and>
   (fst (kazans s) < 82 \<and> snd (kazans s) < 82 \<and> is_terminal s \<longrightarrow> \<not> has_legal_move s) \<and>
   is_terminal atsyrau_example \<and> final_scores atsyrau_example = (10, 30)"
proof -
  have "final_scores atsyrau_example = (10, 30)" "is_terminal atsyrau_example"
    by code_simp+
  moreover have "is_terminal s \<Longrightarrow> final_scores s =
        (if fst (kazans s) \<ge> 82 \<or> snd (kazans s) \<ge> 82 then kazans s
         else (fst (kazans s) + sum_list (fst (pits s)),
               snd (kazans s) + sum_list (snd (pits s))))"
    by (cases "player_to_move s")
      (auto simp: final_scores_def is_terminal_def Let_def opponent_of_def entry_fst_snd
        split: if_splits)
  moreover have "fst (kazans s) < 82 \<and> snd (kazans s) < 82 \<and> is_terminal s \<longrightarrow> \<not> has_legal_move s"
    by (auto simp: is_terminal_def entry_fst_snd split: if_splits)
  ultimately show ?thesis by blast
qed

theorem final_scores_terminal_witness:
  "is_terminal atsyrau_example \<and> \<not> has_legal_move atsyrau_example \<and>
   final_scores atsyrau_example =
     (fst (kazans atsyrau_example) + sum_list (fst (pits atsyrau_example)),
      snd (kazans atsyrau_example) + sum_list (snd (pits atsyrau_example)))"
  using final_scores_terminal [of atsyrau_example]
  by (simp add: atsyrau_example_def)

text \<open>
  C10. \<open>outcome\<close> is a total function (no subscript or division in it can fail) that
  returns \<open>None\<close> for every non-terminal state and also for every terminal state with
  tied final scores; the initial position is an instance of the first and the
  empty board with kazans (81, 81) is an instance of the second, so \<open>None\<close> alone does
  not tell a draw from an ongoing game.
\<close>

theorem outcome_none_ambiguous:
  "(\<not> is_terminal s \<longrightarrow> outcome s = None) \<and>
   (is_terminal s \<and> fst (final_scores s) = snd (final_scores s) \<longrightarrow> outcome s = None) \<and>
   (\<not> is_terminal initial \<and> outcome initial = None) \<and>
   (is_terminal drawn_example \<and> final_scores drawn_example = (81, 81) \<and>
    outcome drawn_example = None)"
proof -
  have "\<not> is_terminal initial"
    by code_simp
  moreover have "is_terminal drawn_example" "final_scores drawn_example = (81, 81)"
    by code_simp+
  ultimately show ?thesis by (simp add: outcome_def Let_def)
qed

theorem outcome_none_ambiguous_witness:
  "\<not> is_terminal initial \<and> outcome initial = None \<and>
   is_terminal drawn_example \<and>
   fst (final_scores drawn_example) = snd (final_scores drawn_example) \<and>
   outcome drawn_example = None"
  using outcome_none_ambiguous [of initial] outcome_none_ambiguous [of drawn_example]
  by simp

subsection \<open>Illegal moves\<close>

text \<open>
  C3. The index \<open>-1\<close> is outside 0..8, yet \<open>apply_move\<close> does not reject it in the initial
  position: the subscript \<^verbatim>\<open>pits[mover][-1]\<close> reads the mover's last pit, the emptiness
  check passes, and a successor state is returned in which pit 8 was emptied and sown
  from pit 0 onwards.
\<close>

theorem apply_move_accepts_negative_index:
  "apply_move initial (-1) =
     Inr \<lparr>pits = ([10, 10, 10, 10, 10, 10, 10, 10, 1], [9, 9, 9, 9, 9, 9, 9, 9, 9]),
          kazans = (0, 0), tuzdyk_indices = (None, None),
          player_to_move = BLACK, move_number = 2\<rparr>"
  by code_simp

text \<open>
  What the check of \<open>apply_move\<close> does on a board of two rows of nine: for an index in
  0..8 it raises ValueError exactly when the mover's pit holds no stone and succeeds
  otherwise; an index above 8 or below -9 raises IndexError.
\<close>

lemma apply_move_in_range:
  assumes "rows9 (pits s)" "in_row p"
  shows "(apply_move s p = Inl ValueError \<longleftrightarrow> stones_at (pits s) (player_to_move s, p) \<le> 0) \<and>
         (stones_at (pits s) (player_to_move s, p) > 0 \<longrightarrow> (\<exists>s'. apply_move s p = Inr s'))"
proof (cases "stones_at (pits s) (player_to_move s, p) > 0")
  case True
  with apply_move_sum [OF assms(1) in_row_on_board [OF assms(2)] get_pit_in_row [OF assms]]
  show ?thesis by auto
next
  case False
  then show ?thesis
    by (simp add: apply_move_def sowing_def pick_up_def Let_def get_pit_in_row [OF assms])
qed

lemma apply_move_out_of_range:
  assumes "rows9 (pits s)" "p < -9 \<or> 8 < p"
  shows "apply_move s p = Inl IndexError"
  using assms
  by (auto simp: apply_move_def sowing_def pick_up_def Let_def get_pit_def py_get_def
      py_index_def rows9_entry)

section \<open>Properties of the serialization\<close>

subsection \<open>Integers as text\<close>

lemma digit_char_props:
  assumes "d < 10"
  shows "is_digit (digit_char d)" and "digit_val (digit_char d) = d"
  using assms
  by (simp_all add: is_digit_def digit_char_def digit_val_def)

lemma is_digit_not_sep:
  assumes "is_digit c"
  shows "\<not> is_space c" and "c \<noteq> CHR ''-''" and "c \<noteq> CHR ''|''" and "c \<noteq> CHR '',''"
    and "c \<noteq> CHR ''+''"
  using assms by (auto simp: is_digit_def is_space_def)

lemma digits_of_digits: "digits (digits_of n)"
  by (induction n rule: digits_of.induct)
    (subst digits_of.simps, auto simp: digits_def digit_char_props)

lemma digits_of_nonempty: "digits_of n \<noteq> []"
  by (subst digits_of.simps) simp

lemma digits_value_foldl:
  "digits x \<Longrightarrow> digits_value acc x = Some (foldl (\<lambda>a c. 10 * a + digit_val c) acc x)"
  by (induction acc x rule: digits_value.induct) (auto simp: digits_def)

lemma foldl_digits_of: "foldl (\<lambda>a c. 10 * a + digit_val c) 0 (digits_of n) = n"
proof (induction n rule: digits_of.induct)
  case (1 n)
  show ?case
  proof (cases "n < 10")
    case True
    then show ?thesis by (subst digits_of.simps) (simp add: digit_char_props)
  next
    case False
    with 1 show ?thesis by (subst digits_of.simps) (simp add: digit_char_props)
  qed
qed

lemma parse_nat_digits_of: "parse_nat (digits_of n) = Some n"
proof -
  obtain c cs where x: "digits_of n = c # cs" using digits_of_nonempty [of n] by (cases "digits_of n") auto
  with digits_of_digits [of n] have d: "is_digit c" "digits cs" by (simp_all add: digits_def)
  have "foldl (\<lambda>a c. 10 * a + digit_val c) 0 (c # cs) = n" using foldl_digits_of [of n] x by simp
  with d x show ?thesis by (simp add: parse_nat_def digits_value_foldl)
qed

lemma dropWhile_none: "\<forall>c \<in> set x. \<not> P c \<Longrightarrow> dropWhile P x = x"
  by (cases x) auto

lemma strip_no_space: "list_all (\<lambda>c. \<not> is_space c) x \<Longrightarrow> strip x = x"
  by (simp add: strip_def list_all_iff dropWhile_none)

lemma digits_no_space: "digits x \<Longrightarrow> list_all (\<lambda>c. \<not> is_space c) x"
  by (auto simp: digits_def list_all_iff is_digit_not_sep)

lemma py_int_py_str: "py_int (py_str i) = Some i"
proof (cases "i < 0")
  case True
  have "\<not> is_space CHR ''-''" by (simp add: is_space_def)
  with digits_no_space [OF digits_of_digits, of "nat (- i)"]
  have "strip (CHR ''-'' # digits_of (nat (- i))) = CHR ''-'' # digits_of (nat (- i))"
    by (intro strip_no_space) simp
  with True show ?thesis by (simp add: py_int_def py_str_def parse_nat_digits_of)
next
  case False
  obtain c cs where x: "digits_of (nat i) = c # cs"
    using digits_of_nonempty [of "nat i"] by (cases "digits_of (nat i)") auto
  with digits_of_digits [of "nat i"] have "is_digit c" by (simp add: digits_def)
  then have c: "c \<noteq> CHR ''-''" "c \<noteq> CHR ''+''" by (simp_all add: is_digit_not_sep)
  have "strip (digits_of (nat i)) = digits_of (nat i)"
    using digits_no_space [OF digits_of_digits] by (rule strip_no_space)
  with False c x parse_nat_digits_of [of "nat i"] show ?thesis
    by (simp add: py_int_def py_str_def)
qed

lemma py_str_chars:
  "c \<in> set (py_str i) \<Longrightarrow> is_digit c \<or> (c = CHR ''-'' \<and> i < 0)"
  using digits_of_digits [of "nat i"] digits_of_digits [of "nat (- i)"]
  by (auto simp: py_str_def digits_def list_all_iff split: if_splits)

lemma py_str_not_dash: "py_str i \<noteq> ''-''"
  using digits_of_nonempty [of "nat (- i)"] digits_of_nonempty [of "nat i"]
    digits_of_digits [of "nat i"]
  by (auto simp: py_str_def digits_def is_digit_def split: if_splits)

lemma py_str_nonempty: "py_str i \<noteq> []"
  using digits_of_nonempty by (simp add: py_str_def)

subsection \<open>Splitting what was joined\<close>

lemma split_no_sep: "sep \<notin> set x \<Longrightarrow> split sep x = [x]"
  by (induction x) auto

lemma split_append: "sep \<notin> set x \<Longrightarrow> split sep (x @ sep # rest) = x # split sep rest"
  by (induction x) auto

lemma split_join:
  "parts \<noteq> [] \<Longrightarrow> list_all (\<lambda>x. sep \<notin> set x) parts \<Longrightarrow> split sep (join [sep] parts) = parts"
  by (induction "[sep]" parts rule: join.induct) (auto simp: split_no_sep split_append)

lemma set_join: "c \<in> set (join sep parts) \<Longrightarrow> c \<in> set sep \<or> (\<exists>x \<in> set parts. c \<in> set x)"
  by (induction sep parts rule: join.induct) auto

lemma int_list_row:
  assumes "row \<noteq> []" "list_all (\<lambda>x. 0 \<le> x) row"
  shows "int_list (join ''-'' (map py_str row)) = Some row"
proof -
  have "CHR ''-'' \<notin> set (py_str x)" if "0 \<le> x" for x
    using that py_str_chars [of "CHR ''-''" x] is_digit_not_sep(2) [of "CHR ''-''"] by auto
  with assms(2) have "list_all (\<lambda>x. CHR ''-'' \<notin> set x) (map py_str row)"
    by (simp add: list_all_iff)
  with assms(1) have "split CHR ''-'' (join ''-'' (map py_str row)) = map py_str row"
    by (intro split_join) simp_all
  moreover have "those (map py_int (map py_str row)) = Some row"
    by (induction row) (simp_all add: py_int_py_str)
  ultimately show ?thesis by (simp add: int_list_def)
qed

lemma tuz_val_tuz_str: "tuz_val (tuz_str t) = Some t"
  by (cases t) (simp_all add: tuz_val_def tuz_str_def py_str_not_dash py_int_py_str)

subsection \<open>Round trip\<close>

lemma plain_no_sep: "plain x \<Longrightarrow> CHR ''|'' \<notin> set x \<and> CHR '','' \<notin> set x"
  by (auto simp: plain_def list_all_iff is_digit_def)

lemma plain_py_str: "plain (py_str i)"
  using py_str_chars [of _ i] by (auto simp: plain_def list_all_iff)

lemma plain_tuz_str: "plain (tuz_str t)"
  by (cases t) (simp_all add: tuz_str_def plain_py_str, simp add: plain_def)

lemma plain_row: "plain (join ''-'' (map py_str row))"
proof -
  have "is_digit c \<or> c = CHR ''-''" if "c \<in> set (join ''-'' (map py_str row))" for c
    using set_join [OF that] py_str_chars by auto
  then show ?thesis by (simp add: plain_def list_all_iff)
qed

lemma split_pair:
  "CHR '','' \<notin> set x \<Longrightarrow> CHR '','' \<notin> set y \<Longrightarrow> split CHR '','' (x @ CHR '','' # y) = [x, y]"
  by (simp add: split_append split_no_sep)

lemma fen_roundtrip:
  assumes ne: "fst (pits s) \<noteq> []" "snd (pits s) \<noteq> []" and nn: "nonneg (pits s)"
  shows "deserialize_fen (serialize_fen s) = Inr s"
proof -
  let ?side = "if player_to_move s = WHITE then ''W'' else ''B''"
  let ?w = "join ''-'' (map py_str (fst (pits s)))" and ?b = "join ''-'' (map py_str (snd (pits s)))"
  let ?p = "join '','' [?w, ?b]"
  let ?k = "py_str (fst (kazans s)) @ '','' @ py_str (snd (kazans s))"
  let ?t = "tuz_str (fst (tuzdyk_indices s)) @ '','' @ tuz_str (snd (tuzdyk_indices s))"
  let ?m = "py_str (move_number s)"
  have ser: "serialize_fen s = join ''|'' [?side, ?p, ?k, ?t, ?m]"
    by (simp add: serialize_fen_def entry_fst_snd)
  have bar: "CHR ''|'' \<notin> set ?side" "CHR ''|'' \<notin> set ?p" "CHR ''|'' \<notin> set ?k"
    "CHR ''|'' \<notin> set ?t" "CHR ''|'' \<notin> set ?m"
    using plain_no_sep [OF plain_row] plain_no_sep [OF plain_py_str] plain_no_sep [OF plain_tuz_str]
    by auto
  have top: "split CHR ''|'' (serialize_fen s) = [?side, ?p, ?k, ?t, ?m]"
    unfolding ser using bar by (intro split_join) simp_all
  have p: "split CHR '','' ?p = [?w, ?b]"
    using plain_no_sep [OF plain_row] by (intro split_join) simp_all
  have k: "split CHR '','' (py_str (fst (kazans s)) @ CHR '','' # py_str (snd (kazans s)))
      = [py_str (fst (kazans s)), py_str (snd (kazans s))]"
    using plain_no_sep [OF plain_py_str] by (intro split_pair) simp_all
  have t: "split CHR '','' (tuz_str (fst (tuzdyk_indices s)) @ CHR '','' # tuz_str (snd (tuzdyk_indices s)))
      = [tuz_str (fst (tuzdyk_indices s)), tuz_str (snd (tuzdyk_indices s))]"
    using plain_no_sep [OF plain_tuz_str] by (intro split_pair) simp_all
  have w: "int_list ?w = Some (fst (pits s))" and b: "int_list ?b = Some (snd (pits s))"
    using ne nn by (simp_all add: int_list_row nonneg_def)
  have side: "(if ?side = ''W'' then WHITE else BLACK) = player_to_move s"
    by (cases "player_to_move s") simp_all
  show ?thesis
    unfolding deserialize_fen_def top
    by (simp add: p k t w b tuz_val_tuz_str py_int_py_str side del: join.simps)
qed

subsection \<open>Reachable states\<close>

lemma set_pit_nonneg:
  "set_pit ps side idx v = Some ps' \<Longrightarrow> nonneg ps \<Longrightarrow> 0 \<le> v \<Longrightarrow> nonneg ps'"
  by (cases ps; cases side)
    (auto simp: set_pit_def py_set_def nonneg_def list_all_iff dest!: set_update_subset_insert [THEN subsetD])

lemma get_pit_nonneg: "get_pit ps side idx = Some c \<Longrightarrow> nonneg ps \<Longrightarrow> 0 \<le> c"
  by (cases ps; cases side)
    (auto simp: get_pit_def py_get_def nonneg_def list_all_iff dest!: py_index_Some)

lemma incr_pit_nonneg: "incr_pit ps side idx = Some ps' \<Longrightarrow> nonneg ps \<Longrightarrow> nonneg ps'"
  using get_pit_nonneg [of ps side idx] set_pit_nonneg [of ps side idx]
  by (auto simp: incr_pit_def split: option.splits)

lemma sow_nonneg:
  "sow tuz n cur lc ps kz = Inr (ps', kz', lc') \<Longrightarrow> nonneg ps \<Longrightarrow> nonneg ps'"
proof (induction tuz n cur lc ps kz rule: sow.induct)
  case (1 tuz n cur lc ps kz)
  show ?case
  proof (cases "n > 0")
    case False
    with "1.prems" show ?thesis by (simp add: sow.simps)
  next
    case pos: True
    show ?thesis
    proof (cases "tuzdyk_owner_at tuz (fst cur) (snd cur)")
      case (Some owner)
      with pos "1.prems" "1.IH"(2) [OF pos Some] show ?thesis
        by (simp add: sow.simps [of tuz n])
    next
      case None
      with pos "1.prems" obtain ps1 where inc: "incr_pit ps (fst cur) (snd cur) = Some ps1"
        by (auto simp: sow.simps [of tuz n] split: option.splits)
      with pos None "1.prems" "1.IH"(1) [OF pos None inc] incr_pit_nonneg [OF inc]
      show ?thesis by (simp add: sow.simps [of tuz n])
    qed
  qed
qed

lemma pick_up_nonneg: "pick_up s a = Inr (ps1, n, cur) \<Longrightarrow> nonneg (pits s) \<Longrightarrow> nonneg ps1"
  by (auto simp: pick_up_def Let_def split: option.splits if_splits
      dest: set_pit_nonneg incr_pit_nonneg)

lemma capture_nonneg:
  "capture s mover tuz (ps, kz, lc) = Inr (ps', kz', tuz') \<Longrightarrow> nonneg ps \<Longrightarrow> nonneg ps'"
  by (auto simp: capture_def Let_def split: option.splits if_splits dest: set_pit_nonneg)

lemma apply_move_nonneg:
  assumes "apply_move s a = Inr s'" "nonneg (pits s)"
  shows "nonneg (pits s')"
proof -
  from assms(1) obtain ps kz lc ps' kz' tuz' where sg: "sowing s a = Inr (ps, kz, lc)"
    and cp: "capture s (player_to_move s) (tuzdyk_indices s) (ps, kz, lc) = Inr (ps', kz', tuz')"
    and s': "pits s' = ps'"
    by (auto simp: apply_move_def Let_def split: sum.splits)
  from sg obtain ps1 n cur where pk: "pick_up s a = Inr (ps1, n, cur)"
    and sw: "sow (tuzdyk_indices s) n cur cur ps1 (kazans s) = Inr (ps, kz, lc)"
    by (auto simp: sowing_def split: sum.splits)
  from capture_nonneg [OF cp sow_nonneg [OF sw pick_up_nonneg [OF pk assms(2)]]] s'
  show ?thesis by simp
qed

lemma reachable_invariant:
  "reachable s \<Longrightarrow> rows9 (pits s) \<and> nonneg (pits s) \<and> total_seeds s = 162"
proof (induction rule: reachable.induct)
  case init
  show ?case by (simp add: initial_def rows9_def nonneg_def total_seeds_def board_sum_def sum_list_replicate
        list_all_iff)
next
  case (step s a s')
  from step.IH have sh: "rows9 (pits s)" and nn: "nonneg (pits s)" and tot: "total_seeds s = 162"
    by simp_all
  from legal_movesD [OF step.hyps(2)] sh have "on_board a"
    by (simp add: on_board_def rows9_entry)
  with legal_get_pit [OF step.hyps(2)] apply_move_sum [OF sh] step.hyps(3) tot
  have "rows9 (pits s')" "total_seeds s' = 162" by fastforce+
  with apply_move_nonneg [OF step.hyps(3) nn] show ?case by simp
qed

text \<open>
  C9. Round trip: for every reachable state, deserializing its serialized text returns a
  state equal to it in pits, kazans, both tuzdyk options, player to move and move number.
\<close>

theorem fen_roundtrip_reachable:
  "reachable s \<Longrightarrow> deserialize_fen (serialize_fen s) = Inr s"
proof -
  assume "reachable s"
  from reachable_invariant [OF this] have sh: "rows9 (pits s)" and nn: "nonneg (pits s)" by simp_all
  from sh have "fst (pits s) \<noteq> []" "snd (pits s) \<noteq> []" by (auto simp: rows9_def)
  then show ?thesis using nn by (rule fen_roundtrip)
qed

theorem fen_roundtrip_reachable_witness:
  "reachable initial \<and>
   serialize_fen initial = ''W|9-9-9-9-9-9-9-9-9,9-9-9-9-9-9-9-9-9|0,0|-,-|1'' \<and>
   deserialize_fen ''W|9-9-9-9-9-9-9-9-9,9-9-9-9-9-9-9-9-9|0,0|-,-|1'' = Inr initial"
proof -
  have ser: "serialize_fen initial = ''W|9-9-9-9-9-9-9-9-9,9-9-9-9-9-9-9-9-9|0,0|-,-|1''"
    by code_simp
  from fen_roundtrip_reachable [OF reachable.init] ser reachable.init show ?thesis by simp
qed

subsection \<open>What deserialization accepts\<close>

lemma those_Some_iff: "(\<exists>ys. those xs = Some ys) \<longleftrightarrow> list_all (\<lambda>x. x \<noteq> None) xs"
  by (induction xs) (auto split: option.splits)

lemma int_list_Some_iff: "(\<exists>ys. int_list row = Some ys) \<longleftrightarrow> list_all int_literal (split CHR ''-'' row)"
  by (simp add: int_list_def those_Some_iff list_all_iff int_literal_def)

lemma int_list_None_iff: "int_list row = None \<longleftrightarrow> \<not> list_all int_literal (split CHR ''-'' row)"
  using int_list_Some_iff [of row] by auto

lemma tuz_val_Some_iff: "(\<exists>v. tuz_val x = Some v) \<longleftrightarrow> int_literal x \<or> x = ''-''"
  by (auto simp: tuz_val_def int_literal_def)

lemma tuz_val_None_iff: "tuz_val x = None \<longleftrightarrow> \<not> (int_literal x \<or> x = ''-'')"
  using tuz_val_Some_iff [of x] by auto

lemma split_parts_no_sep: "x \<in> set (split sep s) \<Longrightarrow> sep \<notin> set x"
  by (induction s arbitrary: x) (auto split: if_splits list.splits)

lemma set_strip: "set (strip x) \<subseteq> set x"
proof -
  have "set (dropWhile is_space (rev (dropWhile is_space x))) \<subseteq> set (rev (dropWhile is_space x))"
    by (rule set_dropWhileD [THEN subsetI]) 
  also have "\<dots> \<subseteq> set x" using set_dropWhileD [of _ is_space x] by auto
  finally show ?thesis by (simp add: strip_def)
qed

lemma py_int_no_dash: "py_int x = Some v \<Longrightarrow> CHR ''-'' \<notin> set x \<Longrightarrow> 0 \<le> v"
  using set_strip [of x]
  by (auto simp: py_int_def split: list.splits if_splits)

lemma those_map_all:
  "those (map f xs) = Some ys \<Longrightarrow> \<forall>x \<in> set xs. \<forall>v. f x = Some v \<longrightarrow> P v \<Longrightarrow> list_all P ys"
  by (induction xs arbitrary: ys) (auto split: option.splits)

lemma int_list_nonneg:
  assumes "int_list row = Some ys"
  shows "list_all (\<lambda>v. 0 \<le> v) ys"
proof -
  have "\<forall>x \<in> set (split CHR ''-'' row). \<forall>v. py_int x = Some v \<longrightarrow> 0 \<le> v"
    using split_parts_no_sep py_int_no_dash by blast
  with assms show ?thesis unfolding int_list_def by (rule those_map_all)
qed

lemma int_list_SomeD: "int_list row = Some ys \<Longrightarrow> list_all int_literal (split CHR ''-'' row)"
  using int_list_Some_iff [of row] by blast

lemma deserialize_fen_accepts: "(\<exists>st. deserialize_fen s = Inr st) \<longleftrightarrow> fen_shape s"
  unfolding deserialize_fen_def fen_shape_def
  by (auto split: list.splits option.splits if_splits
      simp: int_list_None_iff tuz_val_def int_literal_def
      dest: int_list_SomeD)

lemma deserialize_fen_rejects: "deserialize_fen s = Inl ValueError \<longleftrightarrow> \<not> fen_shape s"
proof -
  have "deserialize_fen s = Inl ValueError \<or> (\<exists>st. deserialize_fen s = Inr st)"
    unfolding deserialize_fen_def by (simp split: list.splits option.splits)
  with deserialize_fen_accepts [of s] show ?thesis by auto
qed

lemma deserialize_fen_nonneg: "deserialize_fen s = Inr st \<Longrightarrow> nonneg (pits st)"
  unfolding deserialize_fen_def
  by (auto split: list.splits option.splits simp: nonneg_def dest: int_list_nonneg)

text \<open>
  C4, as stated, fails: a well-shaped text whose seeds sum to 0 is deserialized into a
  state, and so is a text with a side letter other than W or B, rows of three and of one
  pit, a negative kazan, the tuzdyk index 9 and the move number 0.
\<close>

theorem deserialize_fen_no_seed_check:
  "deserialize_fen ''W|0-0-0-0-0-0-0-0-0,0-0-0-0-0-0-0-0-0|0,0|-,-|1'' = Inr empty_board \<and>
   total_seeds empty_board = 0 \<and>
   deserialize_fen ''X|1-2-3,4|-5,0|-,9|0'' =
     Inr \<lparr>pits = ([1, 2, 3], [4]), kazans = (- 5, 0), tuzdyk_indices = (None, Some 9),
          player_to_move = BLACK, move_number = 0\<rparr>"
  by code_simp

text \<open>
  C4, amended. For every text of at most 4300 characters (code points below 256, the
  characters a \<open>string\<close> holds), deserialization either returns a state or raises
  ValueError, and it raises exactly on the texts that do not have the shape \<open>fen_shape\<close>:
  a wrong number of fields or of items in a field, or an item that is not an integer
  literal. No pit count of a returned state is negative (a dash separates the counts, so
  none carries a sign). The seed sum, the number of pits in a row, the sign of a kazan, the
  range of a tuzdyk index, the side letter and the sign of the move number are not
  checked.
\<close>

theorem deserialize_fen_shape_only:
  assumes "length s \<le> 4300"
  shows "(fen_shape s \<longrightarrow> (\<exists>st. deserialize_fen s = Inr st \<and> nonneg (pits st))) \<and>
         (\<not> fen_shape s \<longrightarrow> deserialize_fen s = Inl ValueError)"
  using deserialize_fen_accepts [of s] deserialize_fen_rejects [of s] deserialize_fen_nonneg [of s]
  by blast

theorem deserialize_fen_shape_only_witness:
  "fen_shape ''W|0-0-0-0-0-0-0-0-0,0-0-0-0-0-0-0-0-0|0,0|-,-|1'' \<and>
   (\<exists>st. deserialize_fen ''W|0-0-0-0-0-0-0-0-0,0-0-0-0-0-0-0-0-0|0,0|-,-|1'' = Inr st \<and>
      nonneg (pits st)) \<and>
   fen_shape ''W| 9 ,+9|0,0|-,-|1_0'' \<and>
   (\<exists>st. deserialize_fen ''W| 9 ,+9|0,0|-,-|1_0'' = Inr st \<and> nonneg (pits st)) \<and>
   \<not> fen_shape ''W|9-9|0,0|-,-'' \<and> deserialize_fen ''W|9-9|0,0|-,-'' = Inl ValueError \<and>
   \<not> fen_shape ''W|9-x,9|0,0|-,-|1'' \<and> deserialize_fen ''W|9-x,9|0,0|-,-|1'' = Inl ValueError \<and>
   \<not> fen_shape ''W|9--1,9|0,0|-,-|1'' \<and> deserialize_fen ''W|9--1,9|0,0|-,-|1'' = Inl ValueError \<and>
   \<not> fen_shape (''W|9,9|0,0|-,-|'' @ [CHR 0x1C, CHR ''1'']) \<and>
   deserialize_fen (''W|9,9|0,0|-,-|'' @ [CHR 0x1C, CHR ''1'']) = Inl ValueError"
proof -
  have a: "fen_shape ''W|0-0-0-0-0-0-0-0-0,0-0-0-0-0-0-0-0-0|0,0|-,-|1''" by code_simp
  have a': "fen_shape ''W| 9 ,+9|0,0|-,-|1_0''" by code_simp
  have b: "\<not> fen_shape ''W|9-9|0,0|-,-''" by code_simp
  have c: "\<not> fen_shape ''W|9-x,9|0,0|-,-|1''" by code_simp
  have d: "\<not> fen_shape ''W|9--1,9|0,0|-,-|1''" by code_simp
  have e: "\<not> fen_shape (''W|9,9|0,0|-,-|'' @ [CHR 0x1C, CHR ''1''])" by code_simp
  have la: "length ''W|0-0-0-0-0-0-0-0-0,0-0-0-0-0-0-0-0-0|0,0|-,-|1'' \<le> 4300" by simp
  have la': "length ''W| 9 ,+9|0,0|-,-|1_0'' \<le> 4300" by simp
  have lb: "length ''W|9-9|0,0|-,-'' \<le> 4300" by simp
  have lc: "length ''W|9-x,9|0,0|-,-|1'' \<le> 4300" by simp
  have ld: "length ''W|9--1,9|0,0|-,-|1'' \<le> 4300" by simp
  have le: "length (''W|9,9|0,0|-,-|'' @ [CHR 0x1C, CHR ''1'']) \<le> 4300" by simp
  from a a' b c d e
    deserialize_fen_shape_only [OF la] deserialize_fen_shape_only [OF la']
    deserialize_fen_shape_only [OF lb] deserialize_fen_shape_only [OF lc]
    deserialize_fen_shape_only [OF ld] deserialize_fen_shape_only [OF le]
  show ?thesis by blast
qed

section \<open>Properties of the search\<close>

subsection \<open>Children of an expanded node\<close>

text \<open>
  Expansion inserts one child per legal move, in the order of \<open>legal_moves\<close>, which is
  ascending; noise mixing and backup keep the keys and their order.
\<close>

lemma setdefault_new: "k \<notin> fst ` set cs \<Longrightarrow> setdefault cs k v = cs @ [(k, v)]"
  by (induction cs) auto

lemma expand_children_keys:
  "expand_children policy as cs = Inr cs' \<Longrightarrow> distinct as \<Longrightarrow> set as \<inter> fst ` set cs = {} \<Longrightarrow>
   map fst cs' = map fst cs @ as"
proof (induction as arbitrary: cs)
  case Nil
  then show ?case by simp
next
  case (Cons a as)
  from Cons.prems(1) obtain p
    where rest: "expand_children policy as (setdefault cs a (Node p None 0 0 [])) = Inr cs'"
    by (auto split: option.splits)
  from Cons.prems(3) have new: "setdefault cs a (Node p None 0 0 []) = cs @ [(a, Node p None 0 0 [])]"
    by (intro setdefault_new) auto
  from Cons.prems(2,3) have "set as \<inter> fst ` set (cs @ [(a, Node p None 0 0 [])]) = {}" by auto
  with Cons.IH [OF rest [unfolded new]] Cons.prems(2) show ?case by simp
qed

lemma enumerate_ascending:
  "sorted_wrt (<) [int i. (i, stones) \<leftarrow> enumerate n xs, stones > (0::int)] \<and>
   (\<forall>a \<in> set [int i. (i, stones) \<leftarrow> enumerate n xs, stones > (0::int)]. int n \<le> a)"
proof (induction xs arbitrary: n)
  case Nil
  then show ?case by simp
next
  case (Cons x xs)
  from Cons.IH [of "Suc n"] show ?case by (auto simp: less_le_trans)
qed

lemma legal_moves_ascending: "sorted_wrt (<) (legal_moves s)"
  using enumerate_ascending [of 0] by (simp add: legal_moves_def)

lemma ensure_expanded_keys:
  fixes m :: "'f::{zero,one,inverse,plus,minus,times,uminus,linorder} MCTS"
  assumes "table m node = Some n" "children n = []" "\<not> is_terminal s"
    and "ensure_expanded m node s = Inr m'"
  shows "\<exists>n'. table m' node = Some n' \<and> map fst (children n') = legal_moves s \<and>
           sorted_wrt (<) (map fst (children n'))"
proof -
  from assms obtain cs
    where e: "expand_children (fst (inference_fn m (canonicalize s))) (legal_moves s) [] = Inr cs"
      and t: "table m' node = Some (with_children n cs)"
    by (auto simp: ensure_expanded_def Let_def split: sum.splits)
  have "distinct (legal_moves s)"
    using legal_moves_ascending [of s] by (simp add: strict_sorted_iff)
  from expand_children_keys [OF e this] have "map fst cs = legal_moves s" by simp
  with t legal_moves_ascending [of s] show ?thesis by (simp add: with_children_def)
qed

lemma mix_noise_keys: "map fst (mix_noise fr cs noise) = map fst cs"
  by (induction fr cs noise rule: mix_noise.induct) simp_all

lemma replace_item_keys: "map fst (replace_item cs k v) = map fst cs"
  by (induction cs) auto

subsection \<open>Selection\<close>

lemma select_loop_result:
  fixes E :: "'f::{zero,one,inverse,plus,minus,times,uminus,linorder} env"
  assumes "list_all (\<lambda>(a, ch). child_score E c t ch = Inr (sc ch)) cs"
  shows "\<exists>r. select_loop E c t cs bs ba = Inr r \<and>
           (if list_all (\<lambda>(a, ch). sc ch \<le> bs) cs then r = ba
            else \<exists>pre a ch post. cs = pre @ (a, ch) # post \<and> r = Some a \<and> bs < sc ch \<and>
                   list_all (\<lambda>(b, x). sc x < sc ch) pre \<and> list_all (\<lambda>(b, x). sc x \<le> sc ch) post)"
  using assms
proof (induction cs arbitrary: bs ba)
  case Nil
  then show ?case by simp
next
  case (Cons p cs)
  obtain a ch where p: "p = (a, ch)" by (cases p)
  from Cons.prems p have sc: "child_score E c t ch = Inr (sc ch)"
    and rest: "list_all (\<lambda>(a, ch). child_score E c t ch = Inr (sc ch)) cs" by simp_all
  show ?case
  proof (cases "sc ch > bs")
    case True
    from Cons.IH [OF rest, of "sc ch" "Some a"] obtain r
      where r: "select_loop E c t cs (sc ch) (Some a) = Inr r"
        and alt: "if list_all (\<lambda>(a, x). sc x \<le> sc ch) cs then r = Some a
            else \<exists>pre a' ch' post. cs = pre @ (a', ch') # post \<and> r = Some a' \<and> sc ch < sc ch' \<and>
                   list_all (\<lambda>(b, x). sc x < sc ch') pre \<and> list_all (\<lambda>(b, x). sc x \<le> sc ch') post"
      by blast
    have run: "select_loop E c t (p # cs) bs ba = Inr r" using True sc r p by simp
    have nall: "\<not> list_all (\<lambda>(a, ch). sc ch \<le> bs) (p # cs)" using True p by auto
    show ?thesis
    proof (cases "list_all (\<lambda>(a, x). sc x \<le> sc ch) cs")
      case all: True
      with alt have "r = Some a" by simp
      with all True p have "p # cs = [] @ (a, ch) # cs \<and> r = Some a \<and> bs < sc ch \<and>
          list_all (\<lambda>(b, x). sc x < sc ch) [] \<and> list_all (\<lambda>(b, x). sc x \<le> sc ch) cs" by simp
      then have "\<exists>pre a' ch' post. p # cs = pre @ (a', ch') # post \<and> r = Some a' \<and> bs < sc ch' \<and>
          list_all (\<lambda>(b, x). sc x < sc ch') pre \<and> list_all (\<lambda>(b, x). sc x \<le> sc ch') post"
        by blast
      with run show ?thesis unfolding if_not_P [OF nall] by blast
    next
      case False
      with alt obtain pre a' ch' post where d: "cs = pre @ (a', ch') # post" "r = Some a'"
        "sc ch < sc ch'" "list_all (\<lambda>(b, x). sc x < sc ch') pre"
        "list_all (\<lambda>(b, x). sc x \<le> sc ch') post" by auto
      with True p have "p # cs = (p # pre) @ (a', ch') # post \<and> r = Some a' \<and> bs < sc ch' \<and>
          list_all (\<lambda>(b, x). sc x < sc ch') (p # pre) \<and> list_all (\<lambda>(b, x). sc x \<le> sc ch') post"
        by auto
      then have "\<exists>pre a' ch' post. p # cs = pre @ (a', ch') # post \<and> r = Some a' \<and> bs < sc ch' \<and>
          list_all (\<lambda>(b, x). sc x < sc ch') pre \<and> list_all (\<lambda>(b, x). sc x \<le> sc ch') post"
        by blast
      with run show ?thesis unfolding if_not_P [OF nall] by blast
    qed
  next
    case le: False
    from Cons.IH [OF rest, of bs ba] obtain r
      where r: "select_loop E c t cs bs ba = Inr r"
        and alt: "if list_all (\<lambda>(a, x). sc x \<le> bs) cs then r = ba
            else \<exists>pre a' ch' post. cs = pre @ (a', ch') # post \<and> r = Some a' \<and> bs < sc ch' \<and>
                   list_all (\<lambda>(b, x). sc x < sc ch') pre \<and> list_all (\<lambda>(b, x). sc x \<le> sc ch') post"
      by blast
    have run: "select_loop E c t (p # cs) bs ba = Inr r" using le sc r p by simp
    show ?thesis
    proof (cases "list_all (\<lambda>(a, x). sc x \<le> bs) cs")
      case True
      with alt le p run show ?thesis by auto
    next
      case False
      with alt obtain pre a' ch' post where d: "cs = pre @ (a', ch') # post" "r = Some a'"
        "bs < sc ch'" "list_all (\<lambda>(b, x). sc x < sc ch') pre"
        "list_all (\<lambda>(b, x). sc x \<le> sc ch') post" by auto
      with le p have "p # cs = (p # pre) @ (a', ch') # post \<and> r = Some a' \<and> bs < sc ch' \<and>
          list_all (\<lambda>(b, x). sc x < sc ch') (p # pre) \<and> list_all (\<lambda>(b, x). sc x \<le> sc ch') post"
        by auto
      then have "\<exists>pre a' ch' post. p # cs = pre @ (a', ch') # post \<and> r = Some a' \<and> bs < sc ch' \<and>
          list_all (\<lambda>(b, x). sc x < sc ch') pre \<and> list_all (\<lambda>(b, x). sc x \<le> sc ch') post"
        by blast
      moreover have nall: "\<not> list_all (\<lambda>(a, ch). sc ch \<le> bs) (p # cs)" using False by simp
      ultimately show ?thesis using run unfolding if_not_P [OF nall] by blast
    qed
  qed
qed

lemma sum_list_nonneg_int: "list_all (\<lambda>x. 0 \<le> f x) xs \<Longrightarrow> (0::int) \<le> sum_list (map f xs)"
  by (induction xs) auto

text \<open>
  C6, as stated, fails. In a node that was just expanded, with priors 1/4 for action 0
  and 1/2 for action 1 and no visits yet, the visit count of the parent and the visits of
  its children are both 0; with either as \<open>parent_total_visits\<close> every score is 0 and the
  lowest action, 0, is the maximizing one. The code selects action 1: its total is one
  more than the sum of the children's visit counts, so the prior decides.
\<close>

theorem select_child_not_parent_visits:
  "select_child real_env (3 / 2) fresh_node = Inr 1 \<and>
   visit_count fresh_node = 0 \<and> children_visits fresh_node = 0 \<and>
   is_choice (puct real_env (3 / 2) (visit_count fresh_node)) (children fresh_node) 0 \<and>
   \<not> is_choice (puct real_env (3 / 2) (visit_count fresh_node)) (children fresh_node) 1"
  by (simp add: select_child_def fresh_node_def child_score_def puct_def value_of_def real_env_def
      is_choice_def children_visits_def)

text \<open>
  C6, amended. For a node with at least one child, keys in ascending order (as expansion
  leaves them), no negative visit count and every score above the initial best score
  \<open>-1e9\<close>: \<open>select_child\<close> returns an action that maximizes
  \<open>value + c_puct * prior * sqrt(total_visits) / (1 + child_visits)\<close> with
  \<open>total_visits\<close> one plus the sum of the children's visit counts, and among the actions
  of maximal score it returns the lowest.
\<close>

theorem select_child_puct:
  fixes E :: "'f::{zero,one,inverse,plus,minus,times,uminus,linorder} env"
  assumes ne: "children node \<noteq> []"
    and keys: "sorted_wrt (<) (map fst (children node))"
    and visits: "list_all (\<lambda>(a, ch). 0 \<le> visit_count ch) (children node)"
    and floor: "list_all (\<lambda>(a, ch). float_of_int E (- 1000000000)
                   < puct E c (1 + children_visits node) ch) (children node)"
  shows "\<exists>a. select_child E c node = Inr a \<and>
           is_choice (puct E c (1 + children_visits node)) (children node) a"
proof -
  let ?t = "1 + children_visits node" and ?cs = "children node"
  let ?sc = "puct E c ?t" and ?bs = "float_of_int E (- 1000000000)"
  have "0 \<le> children_visits node"
    unfolding children_visits_def using visits
    by (intro sum_list_nonneg_int) (simp add: list_all_iff case_prod_beta)
  then have t: "0 \<le> ?t" by simp
  have ok: "list_all (\<lambda>(a, ch). child_score E c ?t ch = Inr (?sc ch)) ?cs"
    using visits t by (auto simp: list_all_iff child_score_def)
  obtain p where "p \<in> set ?cs" using ne by (cases ?cs) auto
  with floor have nall: "\<not> list_all (\<lambda>(a, ch). ?sc ch \<le> ?bs) ?cs"
    by (cases p) (auto simp: list_all_iff case_prod_beta not_le)
  from select_loop_result [OF ok, of ?bs None] nall obtain pre a ch post
    where run: "select_loop E c ?t ?cs ?bs None = Inr (Some a)"
      and d: "?cs = pre @ (a, ch) # post"
      and pre: "list_all (\<lambda>(b, x). ?sc x < ?sc ch) pre"
      and post: "list_all (\<lambda>(b, x). ?sc x \<le> ?sc ch) post"
    by auto
  have sel: "select_child E c node = Inr a"
    using run by (simp add: select_child_def children_visits_def)
  from keys d have later: "\<forall>(b, x) \<in> set post. a < b"
    by (auto simp: sorted_wrt_append)
  have "\<forall>(b', ch') \<in> set ?cs. ?sc ch' < ?sc ch \<or> (?sc ch' = ?sc ch \<and> a \<le> b')"
    unfolding d using pre post later by (fastforce simp: list_all_iff)
  moreover have "(a, ch) \<in> set ?cs" unfolding d by simp
  ultimately have "is_choice ?sc ?cs a"
    unfolding is_choice_def list_ex_iff list_all_iff by blast
  with sel show ?thesis by blast
qed

theorem select_child_puct_witness:
  "children fresh_node \<noteq> [] \<and> sorted_wrt (<) (map fst (children fresh_node)) \<and>
   children_visits fresh_node = 0 \<and>
   select_child real_env (3 / 2) fresh_node = Inr 1 \<and>
   is_choice (puct real_env (3 / 2) (1 + children_visits fresh_node)) (children fresh_node) 1"
proof -
  have ne: "children fresh_node \<noteq> []" and keys: "sorted_wrt (<) (map fst (children fresh_node))"
    and cv: "children_visits fresh_node = 0"
    by (simp_all add: fresh_node_def children_visits_def)
  have visits: "list_all (\<lambda>(a, ch). 0 \<le> visit_count ch) (children fresh_node)"
    by (simp add: fresh_node_def)
  have floor: "list_all (\<lambda>(a, ch). float_of_int real_env (- 1000000000)
                   < puct real_env (3 / 2) (1 + children_visits fresh_node) ch) (children fresh_node)"
    unfolding cv by (simp add: fresh_node_def puct_def value_of_def real_env_def)
  have sel: "select_child real_env (3 / 2) fresh_node = Inr 1"
    by (simp add: select_child_def fresh_node_def child_score_def puct_def value_of_def real_env_def)
  from select_child_puct [OF ne keys visits floor] sel ne keys cv show ?thesis by auto
qed

subsection \<open>What a search keeps and whom it asks\<close>

lemma grows_refl: "grows m m"
  by (simp add: grows_def)

lemma grows_trans: "grows m m' \<Longrightarrow> grows m' m'' \<Longrightarrow> grows m m''"
  by (auto simp: grows_def)

lemma grows_table_upd:
  "table m node \<noteq> None \<Longrightarrow> grows m (m\<lparr>table := (table m)(node \<mapsto> n)\<rparr>)"
  by (auto simp: grows_def)

lemma has_legal_move_mirror: "has_legal_move (mirror_state s) = has_legal_move s"
  by (cases "pits s"; cases "player_to_move s")
    (simp_all add: has_legal_move_def mirror_state_def opponent_of_def)

lemma is_terminal_canonicalize: "is_terminal (canonicalize s) = is_terminal s"
proof (cases "player_to_move s = WHITE")
  case True
  then show ?thesis by (simp add: canonicalize_def)
next
  case False
  have "is_terminal (mirror_state s) = is_terminal s"
    unfolding is_terminal_def has_legal_move_mirror
    by (cases "kazans s") (auto simp: mirror_state_def)
  with False show ?thesis by (simp add: canonicalize_def)
qed

lemma get_or_create_node_grows:
  fixes m :: "'f::{zero,one,inverse,plus,minus,times,uminus,linorder} MCTS"
  assumes "get_or_create_node m s = (k, m')"
  shows "grows m m'" and "k = state_key (canonicalize s)" and "table m' k \<noteq> None"
  using assms
  by (auto simp: get_or_create_node_def Let_def grows_def split: option.splits)

lemma ensure_expanded_grows:
  fixes m :: "'f::{zero,one,inverse,plus,minus,times,uminus,linorder} MCTS"
  assumes "ensure_expanded m node s = Inr m'"
  shows "grows m m'"
  using assms
  by (auto simp: ensure_expanded_def Let_def grows_def is_terminal_canonicalize
      split: option.splits if_splits sum.splits)

lemma evaluate_grows:
  fixes m :: "'f::{zero,one,inverse,plus,minus,times,uminus,linorder} MCTS"
  assumes "evaluate m s = Inr (v, m')"
  shows "grows m m'"
proof (cases "is_terminal s")
  case True
  with assms show ?thesis by (auto simp: evaluate_def grows_refl split: option.splits)
next
  case False
  let ?m1 = "m\<lparr>calls := calls m @ [canonicalize s]\<rparr>"
  obtain node m2 where g: "get_or_create_node ?m1 s = (node, m2)" by (cases "get_or_create_node ?m1 s")
  have g1: "grows m ?m1" using False by (simp add: grows_def is_terminal_canonicalize)
  from get_or_create_node_grows [OF g] have g2: "grows ?m1 m2" and n: "table m2 node \<noteq> None"
    by simp_all
  from assms False g n have "m' = m2 \<or> (\<exists>n. m' = m2\<lparr>table := (table m2)(node \<mapsto> n)\<rparr>)"
    by (auto simp: evaluate_def Let_def split: prod.splits option.splits if_splits sum.splits)
  with grows_table_upd [OF n] have "grows m2 m'" by (auto simp: grows_refl)
  with g1 g2 show ?thesis by (blast intro: grows_trans)
qed

lemma backpropagate_grows:
  fixes m :: "'f::{zero,one,inverse,plus,minus,times,uminus,linorder} MCTS"
  shows "backpropagate m path v = Inr m' \<Longrightarrow> grows m m'"
proof (induction path arbitrary: m v)
  case Nil
  then show ?case by (simp add: grows_refl)
next
  case (Cons p path)
  obtain parent action where p: "p = (parent, action)" by (cases p)
  from Cons.prems p obtain n n' where n: "table m parent = Some n"
    and rest: "backpropagate (m\<lparr>table := (table m)(parent \<mapsto> n')\<rparr>) path (- v) = Inr m'"
    by (auto simp: Let_def split: option.splits)
  from n have "grows m (m\<lparr>table := (table m)(parent \<mapsto> n')\<rparr>)" by (intro grows_table_upd) simp
  with Cons.IH [OF rest] show ?case by (blast intro: grows_trans)
qed

lemma add_root_dirichlet_grows:
  fixes m :: "'f::{zero,one,inverse,plus,minus,times,uminus,linorder} MCTS"
  shows "add_root_dirichlet E m k = Inr m' \<Longrightarrow> grows m m'"
  by (auto simp: add_root_dirichlet_def Let_def grows_def split: option.splits if_splits)

lemma descend_grows:
  fixes m :: "'f::{zero,one,inverse,plus,minus,times,uminus,linorder} MCTS"
  assumes "descend E m node s path = Some r"
  shows "\<forall>m' leaf path'. r = Inr (m', leaf, path') \<longrightarrow> grows m m'"
  using assms
proof (induction rule: descend.raw_induct [rotated 1, consumes 1])
  case (1 descend E m node s path r)
  note IH = 1(1) and body = 1(2)
  show ?case
  proof (intro allI impI)
    fix m' leaf path'
    assume r: "r = Inr (m', leaf, path')"
    from body r obtain m1 n where ee: "ensure_expanded m node s = Inr m1"
      and n: "table m1 node = Some n"
      by (auto split: sum.splits option.splits)
    from ensure_expanded_grows [OF ee] have g1: "grows m m1" .
    show "grows m m'"
    proof (cases "children n = []")
      case True
      with body r ee n have "m' = m1" by simp
      with g1 show ?thesis by simp
    next
      case False
      with body r ee n obtain action s' node' m2
        where ap: "apply_move s action = Inr s'"
          and g: "get_or_create_node m1 s' = (node', m2)"
          and fin: "(if is_terminal s' then Some (Inr (m2, s', path @ [(node, action)]))
                     else descend E m2 node' s' (path @ [(node, action)])) = Some r"
        by (auto split: sum.splits prod.splits)
      from get_or_create_node_grows(1) [OF g] have g2: "grows m1 m2" .
      have "grows m2 m'"
      proof (cases "is_terminal s'")
        case True
        with fin r show ?thesis by (simp add: grows_refl)
      next
        case False
        with fin have "descend E m2 node' s' (path @ [(node, action)]) = Some r" by simp
        from IH [OF this] r show ?thesis by simp
      qed
      with g1 g2 show ?thesis by (blast intro: grows_trans)
    qed
  qed
qed

lemma simulate_grows:
  fixes m :: "'f::{zero,one,inverse,plus,minus,times,uminus,linorder} MCTS"
  assumes "simulate E m root_state = Some (Inr m')"
  shows "grows m m'"
proof -
  obtain node m0 where g: "get_or_create_node m root_state = (node, m0)"
    by (cases "get_or_create_node m root_state")
  from assms g obtain m1 s path v m2
    where d: "descend E m0 node root_state [] = Some (Inr (m1, s, path))"
      and e: "evaluate m1 s = Inr (v, m2)"
      and b: "backpropagate m2 (rev path) v = Inr m'"
    by (auto simp: simulate_def split: option.splits sum.splits prod.splits)
  from get_or_create_node_grows(1) [OF g] descend_grows [OF d] evaluate_grows [OF e]
    backpropagate_grows [OF b]
  show ?thesis by (blast intro: grows_trans)
qed

lemma simulations_grows:
  fixes m :: "'f::{zero,one,inverse,plus,minus,times,uminus,linorder} MCTS"
  shows "simulations E k m root_state = Some (Inr m') \<Longrightarrow> grows m m'"
proof (induction k arbitrary: m)
  case 0
  then show ?case by (simp add: grows_refl)
next
  case (Suc k)
  from Suc.prems obtain m1 where s: "simulate E m root_state = Some (Inr m1)"
    and r: "simulations E k m1 root_state = Some (Inr m')"
    by (auto split: option.splits sum.splits)
  from simulate_grows [OF s] Suc.IH [OF r] show ?case by (blast intro: grows_trans)
qed

lemma search_grows:
  fixes m :: "'f::{zero,one,inverse,plus,minus,times,uminus,linorder} MCTS"
  assumes "search E m root_state = Some (Inr (p, m'))"
  shows "grows m m'" and "table m' (state_key (canonicalize root_state)) \<noteq> None"
proof -
  obtain k m0 where g: "get_or_create_node m root_state = (k, m0)"
    by (cases "get_or_create_node m root_state")
  from assms g obtain m1 m2
    where e: "ensure_expanded m0 k root_state = Inr m1"
      and a: "add_root_dirichlet E m1 k = Inr m2"
      and s: "simulations E (nat (num_simulations m2)) m2 root_state = Some (Inr m')"
    by (auto simp: search_def split: option.splits sum.splits prod.splits)
  from get_or_create_node_grows [OF g] have g0: "grows m m0"
    and k: "k = state_key (canonicalize root_state)" and t0: "table m0 k \<noteq> None" by simp_all
  from ensure_expanded_grows [OF e] add_root_dirichlet_grows [OF a] simulations_grows [OF s]
  have g3: "grows m0 m'" by (blast intro: grows_trans)
  with g0 show "grows m m'" by (rule grows_trans)
  from g3 t0 k show "table m' (state_key (canonicalize root_state)) \<noteq> None"
    by (auto simp: grows_def)
qed

subsection \<open>Two searches on one engine\<close>

lemmas run_simps =
  get_or_create_node_def ensure_expanded_def
  add_root_dirichlet_def simulate_def descend.simps select_child_def child_score_def puct_def
  value_of_def real_env_def apply_move_def sowing_def pick_up_def sow.simps capture_def
  evaluate_def outcome_def final_scores_def is_terminal_def has_legal_move_def legal_moves_def
  policy_of_def py_set_def py_get_def py_index_def canonicalize_def
  mirror_state_def state_key_def get_pit_def set_pit_def incr_pit_def next_pos_def
  tuzdyk_owner_at_def opponent_of_def with_children_def with_prior_def can_create_tuzdyk_def
  Let_def enumerate_eq_zip eval_nat_numeral

lemma sqrt_nonneg: "0 \<le> sqrt 2" "0 \<le> sqrt 3" "0 \<le> sqrt 4"
  by simp_all

lemma search_near_end:
  "case search real_env engine0 near_end of
     Some (Inr (p, m1)) \<Rightarrow>
       p = [1, 0, 0, 0, 0, 0, 0, 0, 0] \<and>
       (case table m1 (state_key (canonicalize near_end)) of
          Some n \<Rightarrow> map (\<lambda>(a, ch). (a, visit_count ch)) (children n) = [(0, 2)]
        | None \<Rightarrow> False) \<and>
       (case search real_env m1 near_end of
          Some (Inr (p2, m2)) \<Rightarrow>
            (case table m2 (state_key (canonicalize near_end)) of
               Some n \<Rightarrow> map (\<lambda>(a, ch). (a, visit_count ch)) (children n) = [(0, 4)]
             | None \<Rightarrow> False)
        | _ \<Rightarrow> False)
   | _ \<Rightarrow> False"
  apply (simp add: search_def engine0_def MCTS_init_def near_end_def uniform_eval_def run_simps)
  using sqrt_nonneg by argo

lemma descend_near_end:
  "case get_or_create_node engine0 near_end of
     (node, m1) \<Rightarrow>
       (case descend real_env m1 node near_end [] of
          Some (Inr (m, s, path)) \<Rightarrow> s = near_end_leaf \<and> path = [(node, 0)] \<and>
            calls m = [near_end]
        | _ \<Rightarrow> False)"
  by (simp add: engine0_def MCTS_init_def near_end_def near_end_leaf_def uniform_eval_def run_simps)




subsection \<open>Terminal leaves\<close>

lemma entry_opponent:
  "entry p (opponent_of WHITE) = snd p" "entry p (opponent_of BLACK) = fst p"
  by (cases p; simp add: opponent_of_def)+

lemma terminal_value_outcome:
  "is_terminal s \<Longrightarrow>
   (terminal_value s :: 'f::{zero,one,inverse,plus,minus,times,uminus,linorder}) =
     (case outcome s of None \<Rightarrow> 0 | Some winner \<Rightarrow> if winner = player_to_move s then 1 else - 1)"
  by (cases "player_to_move s"; cases "final_scores s")
    (auto simp: terminal_value_def outcome_def Let_def entry_opponent)

text \<open>
  C8. On a terminal state \<open>_evaluate\<close> returns the terminal value (1 when the final scores
  favour the state's player to move, -1 when they favour the opponent, 0 on a draw) and
  leaves the engine as it was, the record of evaluator calls included, and
  \<open>_ensure_expanded\<close> does nothing; when the selection loop of a simulation ends in a
  terminal state, that value is the one backed up along the path; and all the evaluator
  calls that a search adds are calls on non-terminal states.
\<close>

theorem terminal_leaf_not_evaluated:
  fixes m :: "'f::{zero,one,inverse,plus,minus,times,uminus,linorder} MCTS"
  shows "(is_terminal s \<longrightarrow>
            evaluate m s = Inr (terminal_value s, m) \<and>
            (table m k \<noteq> None \<longrightarrow> ensure_expanded m k s = Inr m)) \<and>
         (is_terminal s \<and> get_or_create_node m0 root_state = (node, m1) \<and>
          descend E m1 node root_state [] = Some (Inr (m, s, path)) \<longrightarrow>
            simulate E m0 root_state = Some (backpropagate m (rev path) (terminal_value s))) \<and>
         (search E m0 root_state = Some (Inr (p, m')) \<longrightarrow>
            (\<exists>new. calls m' = calls m0 @ new \<and> list_all (\<lambda>c. \<not> is_terminal c) new))"
proof (intro conjI impI)
  assume t: "is_terminal s"
  then show ev: "evaluate m s = Inr (terminal_value s, m)"
    by (simp add: evaluate_def terminal_value_outcome split: option.splits)
  show "ensure_expanded m k s = Inr m" if "table m k \<noteq> None"
    using that t by (auto simp: ensure_expanded_def)
next
  assume a: "is_terminal s \<and> get_or_create_node m0 root_state = (node, m1) \<and>
          descend E m1 node root_state [] = Some (Inr (m, s, path))"
  then have "evaluate m s = Inr (terminal_value s, m)"
    by (simp add: evaluate_def terminal_value_outcome split: option.splits)
  with a show "simulate E m0 root_state = Some (backpropagate m (rev path) (terminal_value s))"
    by (simp add: simulate_def)
next
  assume "search E m0 root_state = Some (Inr (p, m'))"
  from search_grows(1) [OF this]
  show "\<exists>new. calls m' = calls m0 @ new \<and> list_all (\<lambda>c. \<not> is_terminal c) new"
    by (simp add: grows_def)
qed

theorem terminal_leaf_not_evaluated_witness:
  "is_terminal near_end_leaf \<and> (terminal_value near_end_leaf :: real) = - 1 \<and>
   (\<exists>node m1 m path p m'.
      get_or_create_node engine0 near_end = (node, m1) \<and>
      descend real_env m1 node near_end [] = Some (Inr (m, near_end_leaf, path)) \<and>
      table m node \<noteq> None \<and>
      evaluate m near_end_leaf = Inr (- 1, m) \<and>
      ensure_expanded m node near_end_leaf = Inr m \<and>
      simulate real_env engine0 near_end = Some (backpropagate m (rev path) (- 1)) \<and>
      search real_env engine0 near_end = Some (Inr (p, m')) \<and>
      (\<exists>new. calls m' = calls engine0 @ new \<and> list_all (\<lambda>c. \<not> is_terminal c) new))"
proof -
  have t: "is_terminal near_end_leaf" by code_simp
  have v: "(terminal_value near_end_leaf :: real) = - 1"
    by (simp add: terminal_value_def near_end_leaf_def final_scores_def has_legal_move_def
        opponent_of_def Let_def)
  obtain node m1 where g: "get_or_create_node engine0 near_end = (node, m1)"
    by (cases "get_or_create_node engine0 near_end")
  with descend_near_end obtain m path
    where d: "descend real_env m1 node near_end [] = Some (Inr (m, near_end_leaf, path))"
    by (auto split: option.splits sum.splits)
  from get_or_create_node_grows(3) [OF g] descend_grows [OF d]
  have n: "table m node \<noteq> None" by (auto simp: grows_def)
  from search_near_end obtain p m' where s: "search real_env engine0 near_end = Some (Inr (p, m'))"
    by (auto split: option.splits sum.splits)
  from terminal_leaf_not_evaluated [of near_end_leaf m node engine0 near_end node m1 real_env path p m']
    t v g d n s
  show ?thesis by auto
qed

end
